theory Spec2Isabelle
  imports Complex_Main "HOL-Library.Word" "HOL-Library.AList"
begin

section \<open>Checklist records\<close>

text \<open>
  Modelled from the spec: the declaration of \<^verbatim>\<open>ChecklistData\<close> (module \<^verbatim>\<open>types\<close>,
  imported by every component) is not among the sources. Its six properties are those of
  the spec's data model, which are also the six keys of the object literal built by
  \<^verbatim>\<open>Add.saveChecklist\<close>, in that literal's order. Numbers are the integers the
  application stores in them (a timestamp, and a 32-bit value added to a timestamp),
  which a JavaScript number holds exactly. The fields \<^verbatim>\<open>id\<close> and \<^verbatim>\<open>done\<close> carry a
  prime because the plain names are taken.
\<close>

record ChecklistData =
  complete :: bool
  done' :: "string list"
  id' :: int
  tasks :: "string list"
  time :: int
  title :: string

subsection \<open>Number.prototype.toString on integers\<close>

definition digit_char :: "nat \<Rightarrow> char" where
  "digit_char d = char_of (48 + d)"

fun digits :: "nat \<Rightarrow> string" where
  "digits n = (if n < 10 then [digit_char n] else digits (n div 10) @ [digit_char (n mod 10)])"

declare digits.simps [simp del]

definition toString :: "int \<Rightarrow> string" where
  "toString n = (if n < 0 then CHR ''-'' # digits (nat (- n)) else digits (nat n))"

subsection \<open>Array helpers of the host language\<close>

text \<open>\<^verbatim>\<open>findIndex\<close> and \<^verbatim>\<open>indexOf\<close> answer -1 when nothing matches.\<close>

fun findIndex :: "('a \<Rightarrow> bool) \<Rightarrow> 'a list \<Rightarrow> int" where
  "findIndex p [] = - 1"
| "findIndex p (x # xs) =
     (if p x then 0 else (let i = findIndex p xs in if i < 0 then - 1 else i + 1))"

definition indexOf :: "'a list \<Rightarrow> 'a \<Rightarrow> int" where
  "indexOf xs v = findIndex (\<lambda>x. x = v) xs"

definition includes' :: "'a list \<Rightarrow> 'a \<Rightarrow> bool" where
  "includes' xs v = (v \<in> set xs)"

text \<open>
  \<^verbatim>\<open>xs.splice(index, 1)\<close>: a negative index counts from the end (clamped at 0), an
  index past the end removes nothing.
\<close>

definition splice1 :: "int \<Rightarrow> 'a list \<Rightarrow> 'a list" where
  "splice1 index xs =
     (let n = int (length xs);
          start = (if index < 0 then max (n + index) 0 else min index n)
      in take (nat start) xs @ drop (nat start + 1) xs)"

text \<open>
  \<^verbatim>\<open>xs[index]\<close> used as a condition: out of range reads \<^verbatim>\<open>undefined\<close>, which is
  falsy, and so is the empty string.
\<close>

definition truthy_at :: "string list \<Rightarrow> int \<Rightarrow> bool" where
  "truthy_at xs index = (0 \<le> index \<and> index < int (length xs) \<and> xs ! nat index \<noteq> [])"

section \<open>Errors and effects\<close>

text \<open>
  The exceptions that can surface: a method called on a \<^verbatim>\<open>null\<close> ref, text that
  \<^verbatim>\<open>JSON.parse\<close> cannot read, a write the host's store has no room for. A promise that
  rejects is a result \<open>Inl\<close>, one that resolves is \<open>Inr\<close>.
\<close>

datatype error = TypeError | SyntaxError | QuotaExceededError

text \<open>
  What a handler asks of the outside world, in the order it asks: a call
  \<^verbatim>\<open>this.storage.set(key, record)\<close> of the storage adapter, or one of the callbacks the
  slide received from the application (they run once the write has resolved).
\<close>

datatype effect =
    StorageSet string ChecklistData
  | OnRefresh "ChecklistData option"
  | OnBack
  | OnMessage string

fun is_write :: "effect \<Rightarrow> bool" where
  "is_write (StorageSet k v) = True"
| "is_write e = False"

section \<open>View: set as complete\<close>

text \<open>
  \<^verbatim>\<open>View.setAsComplete\<close>: \<^verbatim>\<open>Object.assign({}, data, {complete: true, done: data.tasks})\<close>,
  one \<^verbatim>\<open>storage.set\<close>, then the three callbacks.
\<close>

definition setAsComplete :: "ChecklistData \<Rightarrow> effect list" where
  "setAsComplete props_data =
     (let currentData = props_data;
          updateData = props_data\<lparr>complete := True, done' := tasks props_data\<rparr>
      in [StorageSet (toString (id' currentData)) updateData,
          OnRefresh (Some updateData),
          OnBack,
          OnMessage ''Checklist set as complete''])"

section \<open>The Input component\<close>

text \<open>
  The props the Checklist passes to an \<^verbatim>\<open>Input\<close> element. \<^verbatim>\<open>value\<close> and
  \<^verbatim>\<open>checked\<close> are optional; \<^verbatim>\<open>onRemove\<close> and \<^verbatim>\<open>onComplete\<close> record whether the
  handler was passed (when it is, it is the Checklist's own method).
\<close>

record Input =
  props_id :: int
  props_value :: "string option"
  props_mode :: string
  props_focus :: bool
  props_checked :: "bool option"
  props_isRemovable :: bool
  props_onRemove :: bool
  props_onComplete :: bool

section \<open>The Checklist component\<close>

text \<open>
  The instance fields and the state of a \<^verbatim>\<open>Checklist\<close>. \<^verbatim>\<open>this.props.data\<close> and
  \<^verbatim>\<open>this.state.data\<close> are two references: the state's is \<^verbatim>\<open>null\<close> until
  \<^verbatim>\<open>componentDidMount\<close> and the very object of the props afterwards, so the record
  is held once (\<open>the_data\<close>) with a flag saying whether the state points to it. The
  handlers change that object in place, and whoever holds it (the slide, the landing
  list) sees the change.
\<close>

record Checklist =
  the_data :: "ChecklistData option"
  mode :: string
  state_has_data :: bool
  inputElements :: "Input list"
  titleTouched :: bool
  createdInputs :: int
  checklist_title :: string

definition state_data :: "Checklist \<Rightarrow> ChecklistData option" where
  "state_data c = (if state_has_data c then the_data c else None)"

definition constructor :: "ChecklistData option \<Rightarrow> string \<Rightarrow> Checklist" where
  "constructor data m =
     \<lparr>the_data = data, mode = m, state_has_data = False, inputElements = [],
      titleTouched = False, createdInputs = 0,
      checklist_title = (case data of Some d \<Rightarrow> title d | None \<Rightarrow> [])\<rparr>"

definition isComplete :: "Checklist \<Rightarrow> string \<Rightarrow> bool" where
  "isComplete c task =
     (case the_data c of
        Some d \<Rightarrow> (if includes' (done' d) task then True else False)
      | None \<Rightarrow> False)"

definition createInput :: "bool \<Rightarrow> Checklist \<Rightarrow> Checklist" where
  "createInput focus c =
     (let n = createdInputs c + 1
      in c\<lparr>createdInputs := n,
            inputElements := inputElements c @
              [\<lparr>props_id = n, props_value = None, props_mode = mode c, props_focus = focus,
                props_checked = None, props_isRemovable = True, props_onRemove = True,
                props_onComplete = False\<rparr>]\<rparr>)"

text \<open>The loop of \<^verbatim>\<open>insertInputs\<close> over the tasks: the counter and the elements so far.\<close>

fun insert_loop :: "Checklist \<Rightarrow> string list \<Rightarrow> int \<Rightarrow> Input list \<Rightarrow> int \<times> Input list" where
  "insert_loop c [] n acc = (n, acc)"
| "insert_loop c (task # rest) n acc =
     insert_loop c rest (n + 1)
       (acc @ [\<lparr>props_id = n + 1, props_value = Some task, props_mode = mode c,
                 props_focus = False, props_checked = Some (isComplete c task),
                 props_isRemovable = (if mode c = ''edit'' then True else False),
                 props_onRemove = True, props_onComplete = True\<rparr>])"

definition insertInputs :: "Checklist \<Rightarrow> Checklist" where
  "insertInputs c =
     (case the_data c of
        None \<Rightarrow> c
      | Some d \<Rightarrow>
          (let (n, elems) = insert_loop c (tasks d) (createdInputs c) []
           in c\<lparr>createdInputs := n, inputElements := elems\<rparr>))"

definition componentDidMount :: "Checklist \<Rightarrow> Checklist" where
  "componentDidMount c =
     (case the_data c of
        Some d \<Rightarrow> insertInputs (c\<lparr>state_has_data := True\<rparr>)
      | None \<Rightarrow> createInput False c)"

text \<open>
  \<^verbatim>\<open>removeInput\<close>. With more than one input it drops the elements carrying the id,
  lowers the counter (not below 1) and focuses the `Add task` button, which only the edit
  template renders: in another mode the ref is \<^verbatim>\<open>null\<close> and the call throws. Then, when
  the state has the record and its \<^verbatim>\<open>done\<close> includes the task, the task's first
  occurrence is spliced out of \<^verbatim>\<open>done\<close>.
\<close>

definition removeInput :: "int \<Rightarrow> string \<Rightarrow> Checklist \<Rightarrow> error + Checklist" where
  "removeInput ident task c =
     (if length (inputElements c) > 1 then
        (let elems = filter (\<lambda>elem. props_id elem \<noteq> ident) (inputElements c);
             n = createdInputs c - 1;
             n' = (if n < 1 then 1 else n);
             c1 = c\<lparr>inputElements := elems, createdInputs := n'\<rparr>
         in if mode c \<noteq> ''edit'' then Inl TypeError
            else (case state_data c1 of
                    Some currentData \<Rightarrow>
                      (if includes' (done' currentData) task then
                         (let index = indexOf (done' currentData) task
                          in Inr (c1\<lparr>the_data :=
                                Some (currentData\<lparr>done' := splice1 index (done' currentData)\<rparr>)\<rparr>))
                       else Inr c1)
                  | None \<Rightarrow> Inr c1))
      else Inr c)"

text \<open>
  \<^verbatim>\<open>completeTask\<close>: the task's index in \<^verbatim>\<open>done\<close>, a splice when the entry there is
  truthy, a push otherwise, and one \<^verbatim>\<open>storage.set\<close> of the record under its id.
\<close>

definition completeTask :: "string \<Rightarrow> Checklist \<Rightarrow> Checklist \<times> effect list" where
  "completeTask task c =
     (case state_data c of
        Some currentData \<Rightarrow>
          (let completedTasks = done' currentData;
               index = findIndex (\<lambda>v. v = task) completedTasks;
               completedTasks' = (if truthy_at completedTasks index
                                  then splice1 index completedTasks
                                  else completedTasks @ [task]);
               currentData' = currentData\<lparr>done' := completedTasks'\<rparr>
           in (c\<lparr>the_data := Some currentData'\<rparr>,
               [StorageSet (toString (id' currentData')) currentData']))
      | None \<Rightarrow> (c, []))"

subsection \<open>The handlers of an Input, as wired by the Checklist\<close>

text \<open>
  \<^verbatim>\<open>Input.completeTask\<close> forwards the element's own \<^verbatim>\<open>props.value\<close> when the handler
  was passed and the value is truthy; \<^verbatim>\<open>Input.removeInput\<close> forwards the element's id
  and the text now in its field (\<^verbatim>\<open>state.value\<close>).
\<close>

definition Input_completeTask :: "Input \<Rightarrow> Checklist \<Rightarrow> Checklist \<times> effect list" where
  "Input_completeTask elem c =
     (case props_value elem of
        Some v \<Rightarrow> (if props_onComplete elem \<and> v \<noteq> [] then completeTask v c else (c, []))
      | None \<Rightarrow> (c, []))"

definition Input_removeInput :: "Input \<Rightarrow> string \<Rightarrow> Checklist \<Rightarrow> error + Checklist" where
  "Input_removeInput elem state_value c =
     (if props_onRemove elem then removeInput (props_id elem) state_value c else Inr c)"

text \<open>
  What the user can do on a rendered checklist: press `Add another task`, press the
  remove button of the n-th input (whose field holds some text), or tick the checkbox of
  the n-th input. The edit template renders the add button and, for removable inputs, the
  remove button; the view template renders the checkboxes. An event aimed at a control
  that is not rendered does not occur.
\<close>

datatype event = AddTask | RemoveTask nat string | CompleteTask nat

fun handle :: "event \<Rightarrow> Checklist \<Rightarrow> error + (Checklist \<times> effect list)" where
  "handle AddTask c =
     (if mode c = ''edit'' then Inr (createInput True c, []) else Inr (c, []))"
| "handle (RemoveTask n typed) c =
     (if n < length (inputElements c) \<and> props_mode (inputElements c ! n) = ''edit''
         \<and> props_isRemovable (inputElements c ! n)
      then (case Input_removeInput (inputElements c ! n) typed c of
              Inl e \<Rightarrow> Inl e
            | Inr c' \<Rightarrow> Inr (c', []))
      else Inr (c, []))"
| "handle (CompleteTask n) c =
     (if n < length (inputElements c) \<and> props_mode (inputElements c ! n) \<noteq> ''edit''
      then Inr (Input_completeTask (inputElements c ! n) c)
      else Inr (c, []))"

fun run :: "event list \<Rightarrow> Checklist \<Rightarrow> error + (Checklist \<times> effect list)" where
  "run [] c = Inr (c, [])"
| "run (ev # evs) c =
     (case handle ev c of
        Inl e \<Rightarrow> Inl e
      | Inr (c', out) \<Rightarrow>
          (case run evs c' of
             Inl e \<Rightarrow> Inl e
           | Inr (c'', out') \<Rightarrow> Inr (c'', out @ out')))"

section \<open>Edit: save changes\<close>

text \<open>
  The loop shared by \<^verbatim>\<open>Edit.saveChanges\<close> and \<^verbatim>\<open>Add.saveChecklist\<close>: the values of
  the text inputs found in the document, pushed in order when not empty.
\<close>

fun push_values :: "string list \<Rightarrow> string list \<Rightarrow> string list" where
  "push_values tasks' [] = tasks'"
| "push_values tasks' (v # inputs) =
     push_values (if length v \<noteq> 0 then tasks' @ [v] else tasks') inputs"

text \<open>
  The text inputs the document holds for a checklist nobody typed into: one per element,
  showing its \<^verbatim>\<open>defaultValue\<close>.
\<close>

definition input_values :: "Checklist \<Rightarrow> string list" where
  "input_values c =
     map (\<lambda>elem. case props_value elem of Some v \<Rightarrow> v | None \<Rightarrow> []) (inputElements c)"

text \<open>
  \<^verbatim>\<open>Edit.saveChanges\<close>, given the checklist instance behind the ref (if any), the
  values of the text inputs and the slide's \<^verbatim>\<open>props.data\<close>.
\<close>

definition saveChanges :: "Checklist option \<Rightarrow> string list \<Rightarrow> ChecklistData \<Rightarrow> effect list" where
  "saveChanges checklist inputs props_data =
     (case checklist of
        None \<Rightarrow> []
      | Some c \<Rightarrow>
          (if length (checklist_title c) \<noteq> 0 then
             (let tasks' = push_values [] inputs
              in if length tasks' \<noteq> 0 then
                   (let currentData = props_data;
                        updateData = props_data\<lparr>tasks := tasks', title := checklist_title c\<rparr>
                    in [StorageSet (toString (id' currentData)) updateData,
                        OnRefresh (Some updateData),
                        OnBack,
                        OnMessage ''Changes successfully saved''])
                 else [])
           else []))"

section \<open>Add: a new checklist\<close>

text \<open>
  \<^verbatim>\<open>Add.generateUUID\<close>. The array is \<^verbatim>\<open>max\<close> draws of the random source; the seed is
  the floor of \<^verbatim>\<open>Math.random() * (max - 1 - min) + min\<close>, with \<^verbatim>\<open>Math.random()\<close> a
  real number \<open>r\<close>; the result adds the chosen 32-bit value to \<^verbatim>\<open>Date.now()\<close> and
  takes the absolute value. The sum of a 32-bit value and a timestamp is exact in a
  JavaScript number. With \<open>r\<close> in [0, 1), as \<^verbatim>\<open>Math.random()\<close> promises, the seed is
  at most 6 and the read of the array is in range (lemma \<open>seed_of_range\<close>).
\<close>

definition getRandomValues :: "(nat \<Rightarrow> 32 word) \<Rightarrow> nat \<Rightarrow> 32 word list" where
  "getRandomValues draws n = map draws [0..<n]"

definition seed_of :: "real \<Rightarrow> int" where
  "seed_of r = (let min' = 0; max' = 8 in \<lfloor>r * real_of_int (max' - 1 - min') + real_of_int min'\<rfloor>)"

definition generateUUID :: "(nat \<Rightarrow> 32 word) \<Rightarrow> real \<Rightarrow> int \<Rightarrow> int" where
  "generateUUID draws r now =
     (let baseArray = getRandomValues draws 8;
          seed = seed_of r;
          uuid = baseArray ! nat seed
      in \<bar>int (unat uuid) + now\<bar>)"

text \<open>
  \<^verbatim>\<open>Add.saveChecklist\<close>: \<^verbatim>\<open>Date.now()\<close> is read twice, once inside
  \<^verbatim>\<open>generateUUID\<close> and once for \<^verbatim>\<open>time\<close>.
\<close>

definition saveChecklist ::
  "Checklist option \<Rightarrow> string list \<Rightarrow> (nat \<Rightarrow> 32 word) \<Rightarrow> real \<Rightarrow> int \<Rightarrow> int \<Rightarrow> effect list" where
  "saveChecklist checklist inputs draws r now1 now2 =
     (case checklist of
        None \<Rightarrow> []
      | Some c \<Rightarrow>
          (if length (checklist_title c) \<noteq> 0 then
             (let tasks' = push_values [] inputs
              in if length tasks' \<noteq> 0 then
                   (let ident = generateUUID draws r now1;
                        updateData = \<lparr>complete = False, done' = [], id' = ident, tasks = tasks',
                                      time = now2, title = checklist_title c\<rparr>
                    in [StorageSet (toString ident) updateData,
                        OnRefresh (Some updateData),
                        OnBack,
                        OnMessage ''Checklist successfully added''])
                 else [])
           else []))"

section \<open>JSON values and the host's codec\<close>

text \<open>
  What \<^verbatim>\<open>JSON.stringify\<close> writes and \<^verbatim>\<open>JSON.parse\<close> reads: the values of the JSON
  grammar, with an object as its members in property order. Numbers are integers, strings
  are lists of code units below 256; such values are all the application stores.
\<close>

datatype json =
    JNull
  | JBool bool
  | JNumber int
  | JString string
  | JArray "json list"
  | JObject "(string \<times> json) list"

text \<open>A checklist record as the object the components hand to \<^verbatim>\<open>storage.set\<close>.\<close>

definition toJSON :: "ChecklistData \<Rightarrow> json" where
  "toJSON d =
     JObject [(''complete'', JBool (complete d)),
              (''done'', JArray (map JString (done' d))),
              (''id'', JNumber (id' d)),
              (''tasks'', JArray (map JString (tasks d))),
              (''time'', JNumber (time d)),
              (''title'', JString (title d))]"

subsection \<open>JSON.stringify\<close>

text \<open>
  A string is quoted with the quotation mark (0x22) and the reverse solidus (0x5C)
  escaped, the control characters written by their short escape or as a four-digit
  lowercase hexadecimal escape, and every other code unit as it is. Nothing is inserted
  between tokens.
\<close>

definition hex_char :: "nat \<Rightarrow> char" where
  "hex_char d = (if d < 10 then char_of (48 + d) else char_of (87 + d))"

definition escape :: "char \<Rightarrow> string" where
  "escape c =
     (if c = CHR 0x22 then [CHR 0x5C, CHR 0x22]
      else if c = CHR 0x5C then [CHR 0x5C, CHR 0x5C]
      else if c = CHR 0x08 then [CHR 0x5C, CHR ''b'']
      else if c = CHR 0x0C then [CHR 0x5C, CHR ''f'']
      else if c = CHR 0x0A then [CHR 0x5C, CHR ''n'']
      else if c = CHR 0x0D then [CHR 0x5C, CHR ''r'']
      else if c = CHR 0x09 then [CHR 0x5C, CHR ''t'']
      else if (of_char c :: nat) < 32 then
        [CHR 0x5C, CHR ''u'', CHR ''0'', CHR ''0'',
         hex_char (of_char c div 16), hex_char (of_char c mod 16)]
      else [c])"

definition quote :: "string \<Rightarrow> string" where
  "quote s = CHR 0x22 # concat (map escape s) @ [CHR 0x22]"

fun join :: "string \<Rightarrow> string list \<Rightarrow> string" where
  "join sep [] = []"
| "join sep [x] = x"
| "join sep (x # y # ys) = x @ sep @ join sep (y # ys)"

fun JSON_stringify :: "json \<Rightarrow> string" where
  "JSON_stringify JNull = ''null''"
| "JSON_stringify (JBool b) = (if b then ''true'' else ''false'')"
| "JSON_stringify (JNumber n) = toString n"
| "JSON_stringify (JString s) = quote s"
| "JSON_stringify (JArray vs) = ''['' @ join '','' (map JSON_stringify vs) @ '']''"
| "JSON_stringify (JObject ms) =
     ''{'' @ join '','' (map (\<lambda>(k, v). quote k @ '':'' @ JSON_stringify v) ms) @ ''}''"

subsection \<open>JSON.parse\<close>

text \<open>
  A recursive-descent reader of the JSON grammar: insignificant white space, the three
  literals, strings with their escapes, integers, arrays and objects. A number with a
  fraction or an exponent and an escape naming a code unit above 255 have no value in
  this model and are refused; a raw control character inside a string, a leading zero and
  trailing text are refused as the grammar demands. A name that occurs twice in an object
  keeps its first position and its last value. The recursion is bounded by a fuel; the
  entry point supplies more than the length of the text, and a level of nesting spends
  two units of fuel on at least two characters.
\<close>

definition is_ws :: "char \<Rightarrow> bool" where
  "is_ws c = (c = CHR 0x20 \<or> c = CHR 0x09 \<or> c = CHR 0x0A \<or> c = CHR 0x0D)"

definition skip_ws :: "string \<Rightarrow> string" where
  "skip_ws s = dropWhile is_ws s"

definition is_digit :: "char \<Rightarrow> bool" where
  "is_digit c = (48 \<le> (of_char c :: nat) \<and> (of_char c :: nat) \<le> 57)"

definition digit_val :: "char \<Rightarrow> nat" where
  "digit_val c = of_char c - 48"

fun parse_digits :: "nat \<Rightarrow> string \<Rightarrow> nat \<times> string" where
  "parse_digits acc [] = (acc, [])"
| "parse_digits acc (c # cs) =
     (if is_digit c then parse_digits (10 * acc + digit_val c) cs else (acc, c # cs))"

definition parse_nat :: "string \<Rightarrow> (nat \<times> string) option" where
  "parse_nat s =
     (case s of
        [] \<Rightarrow> None
      | c # cs \<Rightarrow>
          if c = CHR ''0'' then Some (0, cs)
          else if is_digit c then Some (parse_digits 0 s)
          else None)"

definition parse_number :: "string \<Rightarrow> (json \<times> string) option" where
  "parse_number s =
     (let (neg, s1) = (case s of [] \<Rightarrow> (False, s)
                       | c # cs \<Rightarrow> if c = CHR ''-'' then (True, cs) else (False, s))
      in case parse_nat s1 of
           None \<Rightarrow> None
         | Some (n, rest) \<Rightarrow>
             (case rest of
                [] \<Rightarrow> Some (JNumber (if neg then - int n else int n), rest)
              | c # cs \<Rightarrow>
                  if c = CHR ''.'' \<or> c = CHR ''e'' \<or> c = CHR ''E'' then None
                  else Some (JNumber (if neg then - int n else int n), rest)))"

definition hex_val :: "char \<Rightarrow> nat option" where
  "hex_val c =
     (let n = (of_char c :: nat)
      in if 48 \<le> n \<and> n \<le> 57 then Some (n - 48)
         else if 97 \<le> n \<and> n \<le> 102 then Some (n - 87)
         else if 65 \<le> n \<and> n \<le> 70 then Some (n - 55)
         else None)"

definition unescape :: "char \<Rightarrow> char option" where
  "unescape e =
     (if e = CHR 0x22 then Some (CHR 0x22)
      else if e = CHR 0x5C then Some (CHR 0x5C)
      else if e = CHR ''/'' then Some (CHR ''/'')
      else if e = CHR ''b'' then Some (CHR 0x08)
      else if e = CHR ''f'' then Some (CHR 0x0C)
      else if e = CHR ''n'' then Some (CHR 0x0A)
      else if e = CHR ''r'' then Some (CHR 0x0D)
      else if e = CHR ''t'' then Some (CHR 0x09)
      else None)"

definition code_unit :: "char \<Rightarrow> char \<Rightarrow> char \<Rightarrow> char \<Rightarrow> char option" where
  "code_unit h1 h2 h3 h4 =
     (case (hex_val h1, hex_val h2, hex_val h3, hex_val h4) of
        (Some a, Some b, Some c, Some d) \<Rightarrow>
          (if a = 0 \<and> b = 0 then Some (char_of (16 * c + d)) else None)
      | _ \<Rightarrow> None)"

definition cons_char :: "char \<Rightarrow> (string \<times> string) option \<Rightarrow> (string \<times> string) option" where
  "cons_char c r = (case r of None \<Rightarrow> None | Some (s, rest) \<Rightarrow> Some (c # s, rest))"

fun parse_chars :: "string \<Rightarrow> (string \<times> string) option" where
  "parse_chars [] = None"
| "parse_chars (c # cs) =
     (if c = CHR 0x22 then Some ([], cs)
      else if c = CHR 0x5C then
        (case cs of
           [] \<Rightarrow> None
         | e # es \<Rightarrow>
             if e = CHR ''u'' then
               (case es of
                  h1 # h2 # h3 # h4 # r \<Rightarrow>
                    (case code_unit h1 h2 h3 h4 of
                       None \<Rightarrow> None
                     | Some u \<Rightarrow> cons_char u (parse_chars r))
                | _ \<Rightarrow> None)
             else
               (case unescape e of
                  None \<Rightarrow> None
                | Some u \<Rightarrow> cons_char u (parse_chars es)))
      else if (of_char c :: nat) < 32 then None
      else cons_char c (parse_chars cs))"

fun literal :: "string \<Rightarrow> json \<Rightarrow> string \<Rightarrow> (json \<times> string) option" where
  "literal [] v s = Some (v, s)"
| "literal (l # ls) v [] = None"
| "literal (l # ls) v (c # cs) = (if c = l then literal ls v cs else None)"

definition object_of :: "(string \<times> json) list \<Rightarrow> json" where
  "object_of ms = JObject (fold (\<lambda>(k, v). AList.update k v) ms [])"

fun parse_value :: "nat \<Rightarrow> string \<Rightarrow> (json \<times> string) option"
  and parse_elements :: "nat \<Rightarrow> string \<Rightarrow> (json list \<times> string) option"
  and parse_members :: "nat \<Rightarrow> string \<Rightarrow> ((string \<times> json) list \<times> string) option" where
  "parse_value 0 s = None"
| "parse_value (Suc n) s =
     (case skip_ws s of
        [] \<Rightarrow> None
      | c # cs \<Rightarrow>
          if c = CHR ''n'' then literal ''ull'' JNull cs
          else if c = CHR ''t'' then literal ''rue'' (JBool True) cs
          else if c = CHR ''f'' then literal ''alse'' (JBool False) cs
          else if c = CHR 0x22 then
            (case parse_chars cs of None \<Rightarrow> None | Some (str, r) \<Rightarrow> Some (JString str, r))
          else if c = CHR ''['' then
            (case skip_ws cs of
               [] \<Rightarrow> None
             | d # ds \<Rightarrow>
                 if d = CHR '']'' then Some (JArray [], ds)
                 else (case parse_elements n cs of
                         None \<Rightarrow> None
                       | Some (vs, r) \<Rightarrow> Some (JArray vs, r)))
          else if c = CHR ''{'' then
            (case skip_ws cs of
               [] \<Rightarrow> None
             | d # ds \<Rightarrow>
                 if d = CHR ''}'' then Some (JObject [], ds)
                 else (case parse_members n cs of
                         None \<Rightarrow> None
                       | Some (ms, r) \<Rightarrow> Some (object_of ms, r)))
          else parse_number (c # cs))"
| "parse_elements 0 s = None"
| "parse_elements (Suc n) s =
     (case parse_value n s of
        None \<Rightarrow> None
      | Some (v, r) \<Rightarrow>
          (case skip_ws r of
             [] \<Rightarrow> None
           | c # cs \<Rightarrow>
               if c = CHR '','' then
                 (case parse_elements n cs of
                    None \<Rightarrow> None
                  | Some (vs, r') \<Rightarrow> Some (v # vs, r'))
               else if c = CHR '']'' then Some ([v], cs)
               else None))"
| "parse_members 0 s = None"
| "parse_members (Suc n) s =
     (case skip_ws s of
        [] \<Rightarrow> None
      | c # cs \<Rightarrow>
          if c = CHR 0x22 then
            (case parse_chars cs of
               None \<Rightarrow> None
             | Some (k, r) \<Rightarrow>
                 (case skip_ws r of
                    [] \<Rightarrow> None
                  | d # ds \<Rightarrow>
                      if d = CHR '':'' then
                        (case parse_value n ds of
                           None \<Rightarrow> None
                         | Some (v, r') \<Rightarrow>
                             (case skip_ws r' of
                                [] \<Rightarrow> None
                              | e # es \<Rightarrow>
                                  if e = CHR '','' then
                                    (case parse_members n es of
                                       None \<Rightarrow> None
                                     | Some (ms, r'') \<Rightarrow> Some ((k, v) # ms, r''))
                                  else if e = CHR ''}'' then Some ([(k, v)], es)
                                  else None))
                      else None))
          else None)"

definition JSON_parse :: "string \<Rightarrow> json option" where
  "JSON_parse s =
     (case parse_value (Suc (length s)) s of
        None \<Rightarrow> None
      | Some (v, r) \<Rightarrow> if skip_ws r = [] then Some v else None)"

text \<open>
  The values that stand for a JavaScript value: within an object no name occurs twice.
\<close>

fun wf_json :: "json \<Rightarrow> bool" where
  "wf_json (JArray vs) = list_all wf_json vs"
| "wf_json (JObject ms) = (distinct (map fst ms) \<and> list_all (\<lambda>m. wf_json (snd m)) ms)"
| "wf_json v = True"

section \<open>The host's key-value store\<close>

text \<open>
  \<^verbatim>\<open>window.localStorage\<close>: the entries in enumeration order, and the room the host
  grants, counted in code units of keys and values. \<^verbatim>\<open>getItem\<close> reads the entry of
  a key, \<^verbatim>\<open>setItem\<close> replaces the value of a key in place or appends the entry, and
  throws when the room is exceeded; \<^verbatim>\<open>removeItem\<close> never throws.
\<close>

record localStorage =
  items :: "(string \<times> string) list"
  quota :: nat

definition used :: "(string \<times> string) list \<Rightarrow> nat" where
  "used es = sum_list (map (\<lambda>(k, v). length k + length v) es)"

definition getItem :: "localStorage \<Rightarrow> string \<Rightarrow> string option" where
  "getItem ls k = map_of (items ls) k"

definition setItem :: "localStorage \<Rightarrow> string \<Rightarrow> string \<Rightarrow> error + localStorage" where
  "setItem ls k v =
     (let es = AList.update k v (items ls)
      in if used es \<le> quota ls then Inr (ls\<lparr>items := es\<rparr>) else Inl QuotaExceededError)"

definition removeItem :: "localStorage \<Rightarrow> string \<Rightarrow> localStorage" where
  "removeItem ls k = ls\<lparr>items := AList.delete k (items ls)\<rparr>"

definition key_names :: "localStorage \<Rightarrow> string list" where
  "key_names ls = map fst (items ls)"

section \<open>The storage adapter\<close>

text \<open>
  Modelled from the spec: the class \<^verbatim>\<open>Storage\<close> (module \<^verbatim>\<open>storage\<close>), which every
  component instantiates as \<^verbatim>\<open>new Storage('checklist')\<close>, is not among the sources.
  The entry of a key lives under \<^verbatim>\<open><namespace>-<key>\<close>.
\<close>

definition storage_key :: "string \<Rightarrow> string \<Rightarrow> string" where
  "storage_key ns key = ns @ ''-'' @ key"

text \<open>
  Modelled from the spec: \<^verbatim>\<open>Storage.get\<close> is not among the sources. It looks the
  prefixed key up; a present entry is parsed as JSON and resolved with, a parse failure
  rejects, an absent entry resolves with no value.
\<close>

definition storage_get :: "string \<Rightarrow> string \<Rightarrow> localStorage \<Rightarrow> error + json option" where
  "storage_get ns key ls =
     (case getItem ls (storage_key ns key) of
        None \<Rightarrow> Inr None
      | Some s \<Rightarrow>
          (case JSON_parse s of
             None \<Rightarrow> Inl SyntaxError
           | Some v \<Rightarrow> Inr (Some v)))"

text \<open>
  Modelled from the spec: \<^verbatim>\<open>Storage.set\<close> is not among the sources. It serialises the
  value and writes it under the prefixed key; a write the host refuses rejects.
\<close>

definition storage_set :: "string \<Rightarrow> string \<Rightarrow> json \<Rightarrow> localStorage \<Rightarrow> error + localStorage" where
  "storage_set ns key v ls = setItem ls (storage_key ns key) (JSON_stringify v)"

text \<open>
  Modelled from the spec: \<^verbatim>\<open>Storage.delete\<close> is not among the sources. It removes the
  prefixed key and resolves whether or not the key was there.
\<close>

definition storage_delete :: "string \<Rightarrow> string \<Rightarrow> localStorage \<Rightarrow> localStorage" where
  "storage_delete ns key ls = removeItem ls (storage_key ns key)"

text \<open>
  Modelled from the spec: \<^verbatim>\<open>Storage.keys\<close> is not among the sources. It scans the keys
  of the store, keeps those that begin with \<^verbatim>\<open><namespace>-\<close> and strips that prefix,
  in the store's enumeration order.
\<close>

definition storage_keys :: "string \<Rightarrow> localStorage \<Rightarrow> string list" where
  "storage_keys ns ls =
     map (drop (length ns + 1))
       (filter (\<lambda>k. take (length ns + 1) k = ns @ ''-'') (key_names ls))"

text \<open>
  A chain of calls of the adapter, each started when the one before has resolved; a
  rejection ends the chain.
\<close>

datatype storage_call = CallSet string json | CallDelete string

fun calls :: "string \<Rightarrow> storage_call list \<Rightarrow> localStorage \<Rightarrow> error + localStorage" where
  "calls ns [] ls = Inr ls"
| "calls ns (CallSet k v # cs) ls =
     (case storage_set ns k v ls of Inl e \<Rightarrow> Inl e | Inr ls' \<Rightarrow> calls ns cs ls')"
| "calls ns (CallDelete k # cs) ls = calls ns cs (storage_delete ns k ls)"

section \<open>Auxiliary notions of the proofs\<close>

text \<open>
  An input element wired to a checklist of mode \<open>m\<close> with tasks \<open>ts\<close>: it is rendered
  in that mode and, when it carries a value, the value is one of the tasks.
\<close>

definition wired :: "string \<Rightarrow> string list \<Rightarrow> Input \<Rightarrow> bool" where
  "wired m ts elem =
     (props_mode elem = m \<and> (case props_value elem of None \<Rightarrow> True | Some v \<Rightarrow> v \<in> set ts))"

definition consistent :: "Checklist \<Rightarrow> bool" where
  "consistent c =
     (case state_data c of
        None \<Rightarrow> False
      | Some R \<Rightarrow>
          set (done' R) \<subseteq> set (tasks R)
          \<and> list_all (wired (mode c) (tasks R)) (inputElements c))"

fun good_write :: "effect \<Rightarrow> bool" where
  "good_write (StorageSet k W) = (set (done' W) \<subseteq> set (tasks W))"
| "good_write e = True"

text \<open>
  An input element whose checkbox acts: when it carries a value, the value is not empty
  and the handler was passed. A checklist is checkable when its state has the record, the
  record's \<^verbatim>\<open>done\<close> holds no string twice and every input element is of that kind.
\<close>

definition armed :: "Input \<Rightarrow> bool" where
  "armed elem =
     (case props_value elem of None \<Rightarrow> True | Some v \<Rightarrow> v \<noteq> [] \<and> props_onComplete elem)"

definition checkable :: "Checklist \<Rightarrow> bool" where
  "checkable c =
     (case state_data c of
        None \<Rightarrow> False
      | Some R \<Rightarrow> distinct (done' R) \<and> list_all armed (inputElements c))"

text \<open>What may follow a value in serialised text, and what a value may begin with.\<close>

definition no_digit :: "string \<Rightarrow> bool" where
  "no_digit s = (case s of [] \<Rightarrow> True | c # cs \<Rightarrow> \<not> is_digit c)"

definition follows :: "string \<Rightarrow> bool" where
  "follows rest =
     (case rest of [] \<Rightarrow> True | c # cs \<Rightarrow> c = CHR '','' \<or> c = CHR '']'' \<or> c = CHR ''}'')"

definition starter :: "char \<Rightarrow> bool" where
  "starter c = (\<not> is_ws c \<and> c \<noteq> CHR '']'' \<and> c \<noteq> CHR ''}'')"

text \<open>The keys set by some call of a chain that no later call of the chain deletes.\<close>

definition live :: "storage_call list \<Rightarrow> string set" where
  "live cs = {k. \<exists>i < length cs. (\<exists>v. cs ! i = CallSet k v)
                 \<and> (\<forall>j. i < j \<and> j < length cs \<longrightarrow> cs ! j \<noteq> CallDelete k)}"

section \<open>Lemmas\<close>

subsection \<open>Arrays and the checklist handlers\<close>

lemma findIndex_ge: "- 1 \<le> findIndex p xs"
  by (induction xs) (auto simp: Let_def)

lemma findIndex_none: "findIndex p xs < 0 \<longleftrightarrow> (\<forall>x \<in> set xs. \<not> p x)"
  using findIndex_ge [of p] by (induction xs) (auto simp: Let_def)

lemma findIndex_notin: "v \<notin> set xs \<Longrightarrow> indexOf xs v = - 1"
  unfolding indexOf_def by (induction xs) (auto simp: Let_def)

lemma indexOf_in:
  "v \<in> set xs \<Longrightarrow> 0 \<le> indexOf xs v \<and> indexOf xs v < int (length xs) \<and> xs ! nat (indexOf xs v) = v"
  unfolding indexOf_def
proof (induction xs)
  case Nil
  then show ?case by simp
next
  case (Cons x xs)
  show ?case
  proof (cases "x = v")
    case True
    then show ?thesis by simp
  next
    case False
    with Cons.prems have "v \<in> set xs" by simp
    from Cons.IH [OF this] False show ?thesis
      by (simp add: Let_def nat_add_distrib)
  qed
qed

lemma splice1_Cons: "0 \<le> i \<Longrightarrow> splice1 (i + 1) (x # xs) = x # splice1 i xs"
  by (auto simp: splice1_def Let_def nat_add_distrib min_def)

lemma splice1_indexOf: "v \<in> set xs \<Longrightarrow> splice1 (indexOf xs v) xs = remove1 v xs"
proof (induction xs)
  case Nil
  then show ?case by simp
next
  case (Cons x xs)
  show ?case
  proof (cases "x = v")
    case True
    then show ?thesis by (simp add: indexOf_def splice1_def)
  next
    case False
    with Cons.prems have in_xs: "v \<in> set xs" by simp
    have ge: "0 \<le> indexOf xs v" using indexOf_in [OF in_xs] by simp
    have "indexOf (x # xs) v = indexOf xs v + 1"
      using False ge by (simp add: indexOf_def Let_def)
    then show ?thesis
      using False ge Cons.IH [OF in_xs] by (simp add: splice1_Cons)
  qed
qed


lemma completeTask_done:
  assumes "state_data c = Some R"
  shows "completeTask t c =
     (let R' = R\<lparr>done' := (if t \<in> set (done' R) \<and> t \<noteq> [] then remove1 t (done' R)
                              else done' R @ [t])\<rparr>
      in (c\<lparr>the_data := Some R'\<rparr>, [StorageSet (toString (id' R)) R']))"
proof (cases "t \<in> set (done' R)")
  case True
  from indexOf_in [OF True] have ix: "0 \<le> findIndex (\<lambda>v. v = t) (done' R)"
      "findIndex (\<lambda>v. v = t) (done' R) < int (length (done' R))"
      "done' R ! nat (findIndex (\<lambda>v. v = t) (done' R)) = t"
    by (simp_all add: indexOf_def)
  have sp: "splice1 (findIndex (\<lambda>v. v = t) (done' R)) (done' R) = remove1 t (done' R)"
    using splice1_indexOf [OF True] by (simp add: indexOf_def)
  show ?thesis
    using assms True ix sp by (simp add: completeTask_def Let_def truthy_at_def)
next
  case False
  then have "findIndex (\<lambda>v. v = t) (done' R) = - 1"
    using findIndex_notin [of t "done' R"] by (simp add: indexOf_def)
  then show ?thesis
    using assms False by (simp add: completeTask_def Let_def truthy_at_def)
qed

lemma removeInput_done:
  assumes "state_data c = Some R" and "length (inputElements c) > 1" and "mode c = ''edit''"
  shows "removeInput i t c =
     Inr (c\<lparr>inputElements := filter (\<lambda>elem. props_id elem \<noteq> i) (inputElements c),
            createdInputs := (if createdInputs c - 1 < 1 then 1 else createdInputs c - 1),
            the_data := Some (R\<lparr>done' := remove1 t (done' R)\<rparr>)\<rparr>)"
proof (cases "t \<in> set (done' R)")
  case True
  then show ?thesis
    using assms splice1_indexOf [OF True]
    by (simp add: removeInput_def Let_def state_data_def includes'_def split: if_splits)
next
  case False
  then have "remove1 t (done' R) = done' R" by (simp add: remove1_idem)
  moreover have "the_data c = Some R" using assms(1) by (simp add: state_data_def split: if_splits)
  ultimately show ?thesis
    using assms False
    by (simp add: removeInput_def Let_def state_data_def includes'_def split: if_splits)
qed


lemma consistentI:
  "state_data c = Some R \<Longrightarrow> set (done' R) \<subseteq> set (tasks R)
   \<Longrightarrow> list_all (wired (mode c) (tasks R)) (inputElements c) \<Longrightarrow> consistent c"
  by (simp add: consistent_def)

lemma consistentE:
  assumes "consistent c"
  obtains R where "state_data c = Some R" and "set (done' R) \<subseteq> set (tasks R)"
    and "list_all (wired (mode c) (tasks R)) (inputElements c)"
  using assms by (auto simp: consistent_def split: option.splits)

lemma insert_loop_elems:
  "list_all (wired (mode c) S) acc \<Longrightarrow> set ts \<subseteq> set S
   \<Longrightarrow> list_all (wired (mode c) S) (snd (insert_loop c ts n acc))"
  by (induction ts arbitrary: n acc) (auto simp: wired_def)

lemma consistent_mount:
  assumes "set (done' R) \<subseteq> set (tasks R)"
  shows "consistent (componentDidMount (constructor (Some R) m))"
proof -
  let ?c = "(constructor (Some R) m)\<lparr>state_has_data := True\<rparr>"
  have "list_all (wired (mode ?c) (tasks R)) (snd (insert_loop ?c (tasks R) (createdInputs ?c) []))"
    by (rule insert_loop_elems) simp_all
  then show ?thesis
    using assms
    by (simp add: consistent_def componentDidMount_def constructor_def insertInputs_def
        state_data_def split_beta)
qed

lemma consistent_createInput:
  assumes "consistent c"
  shows "consistent (createInput f c)"
proof -
  from assms obtain R where R: "state_data c = Some R" "set (done' R) \<subseteq> set (tasks R)"
      "list_all (wired (mode c) (tasks R)) (inputElements c)"
    by (rule consistentE)
  show ?thesis
    using R by (intro consistentI [of _ R])
      (simp_all add: createInput_def Let_def state_data_def wired_def split: if_splits)
qed

lemma consistent_completeTask:
  assumes "consistent c" and "state_data c = Some R" and "t \<in> set (tasks R)"
  shows "consistent (fst (completeTask t c)) \<and> list_all good_write (snd (completeTask t c))"
proof -
  from assms(1) obtain R0 where R0: "state_data c = Some R0" "set (done' R0) \<subseteq> set (tasks R0)"
      "list_all (wired (mode c) (tasks R0)) (inputElements c)"
    by (rule consistentE)
  with assms(2) have R: "set (done' R) \<subseteq> set (tasks R)"
      "list_all (wired (mode c) (tasks R)) (inputElements c)"
    by simp_all
  define d where "d = (if t \<in> set (done' R) \<and> t \<noteq> [] then remove1 t (done' R) else done' R @ [t])"
  have d: "set d \<subseteq> set (tasks R)"
    using R(1) assms(3) set_remove1_subset [of t "done' R"] by (auto simp: d_def)
  have eq: "completeTask t c =
      (c\<lparr>the_data := Some (R\<lparr>done' := d\<rparr>)\<rparr>, [StorageSet (toString (id' R)) (R\<lparr>done' := d\<rparr>)])"
    by (simp add: completeTask_done [OF assms(2)] Let_def d_def)
  have sd: "state_has_data c"
    using assms(2) by (simp add: state_data_def split: if_splits)
  have "consistent (c\<lparr>the_data := Some (R\<lparr>done' := d\<rparr>)\<rparr>)"
    using d R(2) sd by (intro consistentI [of _ "R\<lparr>done' := d\<rparr>"]) (simp_all add: state_data_def)
  then show ?thesis using d by (simp add: eq)
qed

lemma consistent_removeInput:
  assumes "consistent c" and "mode c = ''edit''"
  shows "\<exists>c'. removeInput i t c = Inr c' \<and> consistent c'"
proof (cases "length (inputElements c) > 1")
  case False
  then show ?thesis using assms(1) by (simp add: removeInput_def)
next
  case True
  from assms(1) obtain R where R: "state_data c = Some R" "set (done' R) \<subseteq> set (tasks R)"
      "list_all (wired (mode c) (tasks R)) (inputElements c)"
    by (rule consistentE)
  have d: "set (remove1 t (done' R)) \<subseteq> set (tasks R)"
    using R(2) set_remove1_subset [of t "done' R"] by blast
  have sd: "state_has_data c"
    using R(1) by (simp add: state_data_def split: if_splits)
  have el: "list_all (wired (mode c) (tasks R)) (filter (\<lambda>elem. props_id elem \<noteq> i) (inputElements c))"
    using R(3) by (simp add: list_all_iff)
  let ?c' = "c\<lparr>inputElements := filter (\<lambda>elem. props_id elem \<noteq> i) (inputElements c),
            createdInputs := (if createdInputs c - 1 < 1 then 1 else createdInputs c - 1),
            the_data := Some (R\<lparr>done' := remove1 t (done' R)\<rparr>)\<rparr>"
  have "consistent ?c'"
    using d sd el
    by (intro consistentI [of _ "R\<lparr>done' := remove1 t (done' R)\<rparr>"]) (simp_all add: state_data_def)
  then show ?thesis
    by (simp add: removeInput_done [OF R(1) True assms(2)])
qed

lemma consistent_handle:
  assumes "consistent c"
  shows "\<exists>c' out. handle ev c = Inr (c', out) \<and> consistent c' \<and> list_all good_write out"
proof (cases ev)
  case AddTask
  then show ?thesis
    using assms consistent_createInput [OF assms] by simp
next
  case (RemoveTask n s)
  show ?thesis
  proof (cases "n < length (inputElements c) \<and> props_mode (inputElements c ! n) = ''edit''
         \<and> props_isRemovable (inputElements c ! n)")
    case False
    then show ?thesis using assms RemoveTask by auto
  next
    case True
    then have "inputElements c ! n \<in> set (inputElements c)" by simp
    then have "props_mode (inputElements c ! n) = mode c"
      using assms by (auto simp: consistent_def list_all_iff wired_def split: option.splits)
    with True have ed: "mode c = ''edit''" by simp
    show ?thesis
    proof (cases "props_onRemove (inputElements c ! n)")
      case False
      then show ?thesis
        using assms RemoveTask True by (simp add: Input_removeInput_def)
    next
      case on: True
      from consistent_removeInput [OF assms ed, of "props_id (inputElements c ! n)" s]
      obtain c' where "removeInput (props_id (inputElements c ! n)) s c = Inr c'" "consistent c'"
        by blast
      then show ?thesis
        using RemoveTask True on by (simp add: Input_removeInput_def)
    qed
  qed
next
  case (CompleteTask n)
  show ?thesis
  proof (cases "n < length (inputElements c) \<and> props_mode (inputElements c ! n) \<noteq> ''edit''")
    case False
    then show ?thesis using assms CompleteTask by auto
  next
    case True
    from assms obtain R where R: "state_data c = Some R"
        "list_all (wired (mode c) (tasks R)) (inputElements c)"
      by (rule consistentE)
    from True have mem: "inputElements c ! n \<in> set (inputElements c)" by simp
    show ?thesis
    proof (cases "props_value (inputElements c ! n)")
      case None
      then show ?thesis
        using assms CompleteTask True by (simp add: Input_completeTask_def)
    next
      case (Some v)
      have "v \<in> set (tasks R)"
        using R(2) mem Some by (auto simp: list_all_iff wired_def)
      from consistent_completeTask [OF assms R(1) this]
      show ?thesis
        using assms CompleteTask True Some
        by (cases "completeTask v c") (auto simp: Input_completeTask_def)
    qed
  qed
qed

lemma consistent_run:
  "consistent c \<Longrightarrow> \<exists>c' out. run evs c = Inr (c', out) \<and> consistent c' \<and> list_all good_write out"
proof (induction evs arbitrary: c)
  case Nil
  then show ?case by simp
next
  case (Cons ev evs)
  from consistent_handle [OF Cons.prems, of ev]
  obtain c1 out1 where h: "handle ev c = Inr (c1, out1)" "consistent c1" "list_all good_write out1"
    by blast
  from Cons.IH [OF h(2)]
  obtain c2 out2 where r: "run evs c1 = Inr (c2, out2)" "consistent c2" "list_all good_write out2"
    by blast
  show ?case using h r by simp
qed

lemma push_values_filter: "push_values acc inputs = acc @ filter (\<lambda>v. v \<noteq> []) inputs"
  by (induction inputs arbitrary: acc) simp_all

lemma seed_of_range: "0 \<le> r \<Longrightarrow> r < 1 \<Longrightarrow> 0 \<le> seed_of r \<and> seed_of r \<le> 6"
  by (simp add: seed_of_def Let_def floor_le_iff le_floor_iff)

lemma getRandomValues_nth: "i < n \<Longrightarrow> getRandomValues draws n ! i = draws i"
  by (simp add: getRandomValues_def)


subsection \<open>Reading back what was serialised\<close>

lemma char_eq_code: "c = d \<longleftrightarrow> (of_char c :: nat) = of_char d"
  by simp

lemma of_char_digit_char: "d < 10 \<Longrightarrow> (of_char (digit_char d) :: nat) = 48 + d"
  by (simp add: digit_char_def)

lemma digit_char_props:
  assumes "d < 10"
  shows "is_digit (digit_char d)" "digit_val (digit_char d) = d"
    "digit_char d = CHR ''0'' \<longleftrightarrow> d = 0" "digit_char d \<noteq> CHR ''-''"
  using assms of_char_digit_char [OF assms]
  by (simp_all add: is_digit_def digit_val_def char_eq_code [of "digit_char d"])

lemma parse_digits_stop: "no_digit rest \<Longrightarrow> parse_digits acc rest = (acc, rest)"
  by (cases rest) (simp_all add: no_digit_def)

lemma digits_nonempty: "digits n \<noteq> []"
  by (subst digits.simps) simp

lemma parse_digits_digits:
  "parse_digits acc (digits n @ rest) = parse_digits (acc * 10 ^ length (digits n) + n) rest"
proof (induction n arbitrary: acc rest rule: digits.induct)
  case (1 n)
  show ?case
  proof (cases "n < 10")
    case True
    then show ?thesis
      by (subst (1 2) digits.simps) (simp add: digit_char_props mult.commute)
  next
    case False
    have d: "n mod 10 < 10" by simp
    have "parse_digits acc (digits n @ rest)
        = parse_digits acc (digits (n div 10) @ (digit_char (n mod 10) # rest))"
      using False by (subst digits.simps) simp
    also have "\<dots> = parse_digits (acc * 10 ^ length (digits (n div 10)) + n div 10)
                       (digit_char (n mod 10) # rest)"
      using "1.IH" [OF False] .
    also have "\<dots> = parse_digits (10 * (acc * 10 ^ length (digits (n div 10)) + n div 10) + n mod 10) rest"
      by (simp add: digit_char_props [OF d])
    also have "10 * (acc * 10 ^ length (digits (n div 10)) + n div 10) + n mod 10
        = acc * 10 ^ length (digits n) + n"
      using False by (subst (2) digits.simps) (simp add: algebra_simps)
    finally show ?thesis .
  qed
qed

lemma hd_digits:
  "\<exists>d ds. digits n = digit_char d # ds \<and> d < 10 \<and> (d = 0 \<longleftrightarrow> n = 0)"
proof (induction n rule: digits.induct)
  case (1 n)
  show ?case
  proof (cases "n < 10")
    case True
    then show ?thesis by (subst digits.simps) auto
  next
    case False
    from "1.IH" [OF False] obtain d ds where
      "digits (n div 10) = digit_char d # ds" "d < 10" "d = 0 \<longleftrightarrow> n div 10 = 0"
      by auto
    then show ?thesis
      using False by (subst digits.simps) auto
  qed
qed

lemma parse_nat_digits:
  assumes "no_digit rest"
  shows "parse_nat (digits n @ rest) = Some (n, rest)"
proof -
  from hd_digits [of n] obtain d ds where
    d: "digits n = digit_char d # ds" "d < 10" "d = 0 \<longleftrightarrow> n = 0"
    by auto
  show ?thesis
  proof (cases "n = 0")
    case True
    then have "digits n = [digit_char 0]" by (subst digits.simps) simp
    then show ?thesis
      using True by (simp add: parse_nat_def digit_char_props)
  next
    case False
    have "parse_digits 0 (digits n @ rest) = (n, rest)"
      using parse_digits_digits [of 0 n rest] parse_digits_stop [OF assms] by simp
    then show ?thesis
      using False d by (simp add: parse_nat_def digit_char_props)
  qed
qed

lemma follows_no_digit: "follows rest \<Longrightarrow> no_digit rest"
  by (cases rest) (auto simp: follows_def no_digit_def is_digit_def)

lemma parse_number_toString:
  assumes "follows rest"
  shows "parse_number (toString n @ rest) = Some (JNumber n, rest)"
proof -
  from hd_digits [of "nat n"] obtain d ds where
    d: "digits (nat n) = digit_char d # ds" "d < 10"
    by blast
  have nd: "no_digit rest" using assms by (rule follows_no_digit)
  show ?thesis
  proof (cases "n < 0")
    case True
    then show ?thesis
      using assms parse_nat_digits [OF nd, of "nat (- n)"]
      by (cases rest) (auto simp: parse_number_def toString_def follows_def)
  next
    case False
    then show ?thesis
      using assms parse_nat_digits [OF nd, of "nat n"] d
      by (cases rest) (auto simp: parse_number_def toString_def follows_def digit_char_props)
  qed
qed


lemma hex_val_hex_char: "d < 16 \<Longrightarrow> hex_val (hex_char d) = Some d"
  by (simp add: hex_val_def hex_char_def Let_def)

lemma code_unit_control:
  assumes "(of_char c :: nat) < 32"
  shows "code_unit (CHR ''0'') (CHR ''0'') (hex_char (of_char c div 16)) (hex_char (of_char c mod 16))
         = Some c"
proof -
  have a: "(of_char c :: nat) div 16 < 16" using assms by simp
  have b: "(of_char c :: nat) mod 16 < 16" by simp
  have z: "hex_val (CHR ''0'') = Some 0" by (simp add: hex_val_def)
  have "char_of (16 * ((of_char c :: nat) div 16) + of_char c mod 16) = c"
    by simp
  then show ?thesis
    by (simp add: code_unit_def z hex_val_hex_char [OF a] hex_val_hex_char [OF b])
qed

lemma plain_not_control:
  assumes "\<not> (of_char c :: nat) < 32"
  shows "c \<noteq> CHR 0x08" "c \<noteq> CHR 0x0C" "c \<noteq> CHR 0x0A" "c \<noteq> CHR 0x0D" "c \<noteq> CHR 0x09"
  using assms by (auto simp add: char_eq_code [of c])

lemma control_not_quote:
  assumes "(of_char c :: nat) < 32"
  shows "c \<noteq> CHR 0x22" "c \<noteq> CHR 0x5C"
  using assms by (auto simp add: char_eq_code [of c])

lemma escape_plain:
  "\<not> (of_char c :: nat) < 32 \<Longrightarrow> c \<noteq> CHR 0x22 \<Longrightarrow> c \<noteq> CHR 0x5C \<Longrightarrow> escape c = [c]"
  unfolding escape_def using plain_not_control [of c] by simp

lemma parse_chars_escape: "parse_chars (escape c @ t) = cons_char c (parse_chars t)"
proof -
  consider "c = CHR 0x22" | "c = CHR 0x5C" | "c = CHR 0x08" | "c = CHR 0x0C" | "c = CHR 0x0A"
    | "c = CHR 0x0D" | "c = CHR 0x09"
    | "(of_char c :: nat) < 32" "c \<noteq> CHR 0x08" "c \<noteq> CHR 0x0C" "c \<noteq> CHR 0x0A"
      "c \<noteq> CHR 0x0D" "c \<noteq> CHR 0x09"
    | "\<not> (of_char c :: nat) < 32" "c \<noteq> CHR 0x22" "c \<noteq> CHR 0x5C"
    by blast
  then show ?thesis
  proof cases
    case 1
    then show ?thesis by (simp add: escape_def unescape_def)
  next
    case 2
    then show ?thesis by (simp add: escape_def unescape_def)
  next
    case 3
    then show ?thesis by (simp add: escape_def unescape_def)
  next
    case 4
    then show ?thesis by (simp add: escape_def unescape_def)
  next
    case 5
    then show ?thesis by (simp add: escape_def unescape_def)
  next
    case 6
    then show ?thesis by (simp add: escape_def unescape_def)
  next
    case 7
    then show ?thesis by (simp add: escape_def unescape_def)
  next
    case 8
    then have ne: "c \<noteq> CHR 0x22" "c \<noteq> CHR 0x5C" by (simp_all add: control_not_quote)
    have e: "escape c = [CHR 0x5C, CHR ''u'', CHR ''0'', CHR ''0'',
         hex_char (of_char c div 16), hex_char (of_char c mod 16)]"
      using 8 ne by (simp add: escape_def)
    show ?thesis
      using 8(1) by (simp add: e code_unit_control)
  next
    case 9
    then show ?thesis by (simp add: escape_plain)
  qed
qed

lemma parse_chars_quote:
  "parse_chars (concat (map escape s) @ CHR 0x22 # rest) = Some (s, rest)"
  by (induction s) (simp_all add: parse_chars_escape cons_char_def)

lemma not_ws_skip: "\<not> is_ws c \<Longrightarrow> skip_ws (c # s) = c # s"
  by (simp add: skip_ws_def)


lemma join_Cons: "join sep (x # xs) = (if xs = [] then x else x @ sep @ join sep xs)"
  by (cases xs) simp_all

lemma digit_starter: "d < 10 \<Longrightarrow> starter (digit_char d)"
  using of_char_digit_char [of d]
  by (auto simp: starter_def is_ws_def char_eq_code [of "digit_char d"])

lemma stringify_start: "\<exists>c s. JSON_stringify j = c # s \<and> starter c"
proof (cases j)
  case (JNumber k)
  from hd_digits [of "nat k"] obtain d ds where "digits (nat k) = digit_char d # ds" "d < 10"
    by auto
  then show ?thesis
    using JNumber digit_starter [of d] by (auto simp: toString_def starter_def is_ws_def)
qed (auto simp: starter_def is_ws_def quote_def)

lemma stringify_length: "1 \<le> length (JSON_stringify j)"
  using stringify_start [of j] by auto

lemma number_dispatch:
  assumes "c = CHR ''-'' \<or> is_digit c"
  shows "\<not> is_ws c" "c \<noteq> CHR ''n''" "c \<noteq> CHR ''t''" "c \<noteq> CHR ''f''" "c \<noteq> CHR 0x22"
    "c \<noteq> CHR ''[''" "c \<noteq> CHR ''{''"
  using assms by (auto simp: is_ws_def is_digit_def char_eq_code [of c])

lemma parse_value_number:
  assumes "follows rest"
  shows "parse_value (Suc m) (toString k @ rest) = Some (JNumber k, rest)"
proof -
  obtain c s where cs: "toString k = c # s" "c = CHR ''-'' \<or> is_digit c"
  proof (cases "k < 0")
    case True
    then show ?thesis using that by (simp add: toString_def)
  next
    case False
    from hd_digits [of "nat k"] obtain d ds where "digits (nat k) = digit_char d # ds" "d < 10"
      by auto
    then show ?thesis using that False by (simp add: toString_def digit_char_props)
  qed
  have "parse_value (Suc m) ((c # s) @ rest) = parse_number ((c # s) @ rest)"
    using number_dispatch [OF cs(2)] by (simp add: not_ws_skip)
  then show ?thesis
    using parse_number_toString [OF assms, of k] by (simp add: cs(1))
qed


lemma follows_simps [simp]:
  "follows []" "follows (CHR '','' # s)" "follows (CHR '']'' # s)" "follows (CHR ''}'' # s)"
  by (simp_all add: follows_def)

lemma ws_simps [simp]:
  "\<not> is_ws (CHR '','')" "\<not> is_ws (CHR '']'')" "\<not> is_ws (CHR ''}'')" "\<not> is_ws (CHR '':'')"
  "\<not> is_ws (CHR 0x22)"
  by (simp_all add: is_ws_def)

lemma skip_ws_start: "starter c \<Longrightarrow> skip_ws (c # s) = c # s"
  by (simp add: starter_def not_ws_skip)

lemma parse_elements_join:
  assumes "vs \<noteq> []"
    and "\<And>v n rest. v \<in> set vs \<Longrightarrow> follows rest \<Longrightarrow> length (JSON_stringify v) \<le> n
           \<Longrightarrow> parse_value n (JSON_stringify v @ rest) = Some (v, rest)"
    and "length (join '','' (map JSON_stringify vs)) < n"
  shows "parse_elements n (join '','' (map JSON_stringify vs) @ CHR '']'' # rest) = Some (vs, rest)"
  using assms
proof (induction vs arbitrary: n)
  case Nil
  then show ?case by simp
next
  case (Cons v vs)
  from Cons.prems(3) obtain m where n: "n = Suc m" by (cases n) auto
  show ?case
  proof (cases "vs = []")
    case True
    have "length (JSON_stringify v) \<le> m" using Cons.prems(3) True n by simp
    then have "parse_value m (JSON_stringify v @ CHR '']'' # rest) = Some (v, CHR '']'' # rest)"
      using Cons.prems(2) [of v "CHR '']'' # rest" m] by simp
    then show ?thesis using True n by (simp add: not_ws_skip)
  next
    case False
    let ?tail = "join '','' (map JSON_stringify vs)"
    have len: "length (JSON_stringify v) + 1 + length ?tail < n"
      using Cons.prems(3) False by (simp add: join_Cons)
    have "length (JSON_stringify v) \<le> m" using len n by simp
    then have pv: "parse_value m (JSON_stringify v @ CHR '','' # ?tail @ CHR '']'' # rest)
        = Some (v, CHR '','' # ?tail @ CHR '']'' # rest)"
      using Cons.prems(2) [of v "CHR '','' # ?tail @ CHR '']'' # rest" m] by simp
    have lt: "length ?tail < m" using len n stringify_length [of v] by simp
    have pe: "parse_elements m (?tail @ CHR '']'' # rest) = Some (vs, rest)"
    proof (rule Cons.IH [OF False _ lt])
      fix v' n' rest'
      assume "v' \<in> set vs" "follows rest'" "length (JSON_stringify v') \<le> n'"
      then show "parse_value n' (JSON_stringify v' @ rest') = Some (v', rest')"
        using Cons.prems(2) [of v' rest' n'] by simp
    qed
    show ?thesis
      using False n pv pe by (simp add: join_Cons not_ws_skip)
  qed
qed

lemma parse_members_join:
  assumes "ms \<noteq> []"
    and "\<And>k v n rest. (k, v) \<in> set ms \<Longrightarrow> follows rest \<Longrightarrow> length (JSON_stringify v) \<le> n
           \<Longrightarrow> parse_value n (JSON_stringify v @ rest) = Some (v, rest)"
    and "length (join '','' (map (\<lambda>(k, v). quote k @ '':'' @ JSON_stringify v) ms)) < n"
  shows "parse_members n (join '','' (map (\<lambda>(k, v). quote k @ '':'' @ JSON_stringify v) ms)
            @ CHR ''}'' # rest) = Some (ms, rest)"
  using assms
proof (induction ms arbitrary: n)
  case Nil
  then show ?case by simp
next
  case (Cons kv ms)
  obtain k v where kv: "kv = (k, v)" by (cases kv)
  from Cons.prems(3) obtain m where n: "n = Suc m" by (cases n) auto
  let ?f = "\<lambda>(k, v). quote k @ '':'' @ JSON_stringify v"
  show ?case
  proof (cases "ms = []")
    case True
    have "length (JSON_stringify v) \<le> m" using Cons.prems(3) True n kv by simp
    then have "parse_value m (JSON_stringify v @ CHR ''}'' # rest) = Some (v, CHR ''}'' # rest)"
      using Cons.prems(2) [of k v "CHR ''}'' # rest" m] kv by simp
    then show ?thesis
      using True n kv by (simp add: quote_def not_ws_skip parse_chars_quote)
  next
    case False
    let ?tail = "join '','' (map ?f ms)"
    have len: "length (quote k) + 1 + length (JSON_stringify v) + 1 + length ?tail < n"
      using Cons.prems(3) False kv by (simp add: join_Cons)
    have "length (JSON_stringify v) \<le> m" using len n by simp
    then have pv: "parse_value m (JSON_stringify v @ CHR '','' # ?tail @ CHR ''}'' # rest)
        = Some (v, CHR '','' # ?tail @ CHR ''}'' # rest)"
      using Cons.prems(2) [of k v "CHR '','' # ?tail @ CHR ''}'' # rest" m] kv by simp
    have lt: "length ?tail < m" using len n by simp
    have pe: "parse_members m (?tail @ CHR ''}'' # rest) = Some (ms, rest)"
    proof (rule Cons.IH [OF False _ lt])
      fix k' v' n' rest'
      assume "(k', v') \<in> set ms" "follows rest'" "length (JSON_stringify v') \<le> n'"
      then show "parse_value n' (JSON_stringify v' @ rest') = Some (v', rest')"
        using Cons.prems(2) [of k' v' rest' n'] by simp
    qed
    show ?thesis
      using False n kv pv pe by (simp add: join_Cons quote_def not_ws_skip parse_chars_quote)
  qed
qed

lemma update_fresh: "k \<notin> fst ` set al \<Longrightarrow> AList.update k v al = al @ [(k, v)]"
  by (induction al) auto

lemma fold_update_distinct:
  "distinct (map fst (acc @ ms)) \<Longrightarrow> fold (\<lambda>(k, v). AList.update k v) ms acc = acc @ ms"
proof (induction ms arbitrary: acc)
  case Nil
  then show ?case by simp
next
  case (Cons kv ms)
  obtain k v where kv: "kv = (k, v)" by (cases kv)
  have fresh: "k \<notin> fst ` set acc" using Cons.prems kv by auto
  have "distinct (map fst ((acc @ [(k, v)]) @ ms))" using Cons.prems kv by simp
  from Cons.IH [OF this] show ?case
    using kv by (simp add: update_fresh [OF fresh])
qed

lemma object_of_distinct: "distinct (map fst ms) \<Longrightarrow> object_of ms = JObject ms"
  using fold_update_distinct [of "[]" ms] by (simp add: object_of_def)


lemma join_hd: "\<exists>t. join sep ((c # s) # xs) = c # t"
  by (cases xs) simp_all

lemma parse_value_stringify:
  "wf_json j \<Longrightarrow> follows rest \<Longrightarrow> length (JSON_stringify j) \<le> n
   \<Longrightarrow> parse_value n (JSON_stringify j @ rest) = Some (j, rest)"
proof (induction j arbitrary: n rest)
  case JNull
  then obtain m where "n = Suc m" by (cases n) auto
  then show ?case by (simp add: skip_ws_def is_ws_def)
next
  case (JBool b)
  then obtain m where "n = Suc m" by (cases n; cases b) auto
  then show ?case by (cases b) (simp_all add: skip_ws_def is_ws_def)
next
  case (JNumber k)
  then obtain m where "n = Suc m" using stringify_length [of "JNumber k"] by (cases n) auto
  then show ?case using parse_value_number [OF JNumber.prems(2)] by simp
next
  case (JString s)
  then obtain m where "n = Suc m" by (cases n) (auto simp: quote_def)
  then show ?case by (simp add: quote_def not_ws_skip parse_chars_quote)
next
  case (JArray vs)
  then obtain m where n: "n = Suc m" by (cases n) auto
  show ?case
  proof (cases "vs = []")
    case True
    then show ?thesis using n by (simp add: skip_ws_def is_ws_def)
  next
    case False
    let ?body = "join '','' (map JSON_stringify vs)"
    obtain v vs' where vs: "vs = v # vs'" using False by (cases vs) auto
    from stringify_start [of v] obtain c s where cs: "JSON_stringify v = c # s" "starter c"
      by auto
    obtain s' where body: "?body = c # s'"
      using join_hd [of "'',''" c s "map JSON_stringify vs'"] vs cs(1) by auto
    have lt: "length ?body < m" using JArray.prems(3) n by simp
    have pe: "parse_elements m (?body @ CHR '']'' # rest) = Some (vs, rest)"
    proof (rule parse_elements_join [OF False _ lt])
      fix v' n' rest'
      assume a: "v' \<in> set vs" "follows rest'" "length (JSON_stringify v') \<le> n'"
      have "wf_json v'" using JArray.prems(1) a(1) by (simp add: list_all_iff)
      then show "parse_value n' (JSON_stringify v' @ rest') = Some (v', rest')"
        using JArray.IH [OF a(1) _ a(2,3)] by simp
    qed
    have "parse_value (Suc m) (CHR ''['' # (c # s') @ CHR '']'' # rest) = Some (JArray vs, rest)"
      using cs(2) pe body
      by (simp add: skip_ws_def is_ws_def starter_def)
    then show ?thesis using n body by simp
  qed
next
  case (JObject ms)
  then obtain m where n: "n = Suc m" by (cases n) auto
  let ?f = "\<lambda>(k, v). quote k @ '':'' @ JSON_stringify v"
  show ?case
  proof (cases "ms = []")
    case True
    then show ?thesis using n by (simp add: skip_ws_def is_ws_def)
  next
    case False
    let ?body = "join '','' (map ?f ms)"
    obtain k v ms' where ms: "ms = (k, v) # ms'" using False by (cases ms) auto
    obtain s' where body: "?body = CHR 0x22 # s'"
      using join_hd [of "'',''" "CHR 0x22" _ "map ?f ms'"] ms by (auto simp: quote_def)
    have lt: "length ?body < m" using JObject.prems(3) n by simp
    have pe: "parse_members m (?body @ CHR ''}'' # rest) = Some (ms, rest)"
    proof (rule parse_members_join [OF False _ lt])
      fix k' v' n' rest'
      assume a: "(k', v') \<in> set ms" "follows rest'" "length (JSON_stringify v') \<le> n'"
      have w: "wf_json v'" using JObject.prems(1) a(1) by (auto simp: list_all_iff)
      have "v' \<in> Basic_BNFs.snds (k', v')" by simp
      from JObject.IH [OF a(1) this w a(2,3)]
      show "parse_value n' (JSON_stringify v' @ rest') = Some (v', rest')" .
    qed
    have d: "distinct (map fst ms)" using JObject.prems(1) by simp
    have "parse_value (Suc m) (CHR ''{'' # (CHR 0x22 # s') @ CHR ''}'' # rest) = Some (JObject ms, rest)"
      using pe body object_of_distinct [OF d]
      by (simp add: skip_ws_def is_ws_def)
    then show ?thesis using n body by simp
  qed
qed

lemma JSON_parse_stringify: "wf_json j \<Longrightarrow> JSON_parse (JSON_stringify j) = Some j"
  using parse_value_stringify [of j "[]" "Suc (length (JSON_stringify j))"]
  by (simp add: JSON_parse_def skip_ws_def)

subsection \<open>The keys of the store\<close>

lemma mem_storage_keys:
  "k \<in> set (storage_keys ns ls) \<longleftrightarrow> storage_key ns k \<in> set (key_names ls)"
proof
  assume "k \<in> set (storage_keys ns ls)"
  then obtain K where K: "K \<in> set (key_names ls)" "take (length ns + 1) K = ns @ ''-''"
      "k = drop (length ns + 1) K"
    by (auto simp: storage_keys_def)
  have "take (length ns + 1) K @ drop (length ns + 1) K = K" by (rule append_take_drop_id)
  then have "K = storage_key ns k" unfolding K(2) K(3) [symmetric] by (simp add: storage_key_def)
  then show "storage_key ns k \<in> set (key_names ls)" using K(1) by simp
next
  assume a: "storage_key ns k \<in> set (key_names ls)"
  have "take (length ns + 1) (storage_key ns k) = ns @ ''-''"
    and "drop (length ns + 1) (storage_key ns k) = k"
    by (simp_all add: storage_key_def)
  then show "k \<in> set (storage_keys ns ls)"
    using a unfolding storage_keys_def set_map set_filter by force
qed

lemma storage_key_inj: "storage_key ns k = storage_key ns k' \<longleftrightarrow> k = k'"
  by (simp add: storage_key_def)

lemma key_names_set:
  assumes "storage_set ns k v ls = Inr ls'"
  shows "set (key_names ls') = insert (storage_key ns k) (set (key_names ls))"
proof -
  have "items ls' = AList.update (storage_key ns k) (JSON_stringify v) (items ls)"
    using assms by (auto simp: storage_set_def setItem_def Let_def split: if_splits)
  then have "fst ` set (items ls') = {storage_key ns k} \<union> fst ` set (items ls)"
    by (simp only: dom_update)
  then show ?thesis
    unfolding key_names_def set_map by simp
qed

lemma key_names_delete:
  "set (key_names (storage_delete ns k ls)) = set (key_names ls) - {storage_key ns k}"
  by (simp add: key_names_def storage_delete_def removeItem_def delete_keys)

lemma keys_after_set:
  assumes "storage_set ns k v ls = Inr ls'"
  shows "set (storage_keys ns ls') = insert k (set (storage_keys ns ls))"
proof (rule set_eqI)
  fix x
  have "x \<in> set (storage_keys ns ls') \<longleftrightarrow> storage_key ns x \<in> set (key_names ls')"
    by (rule mem_storage_keys)
  also have "\<dots> \<longleftrightarrow> storage_key ns x = storage_key ns k \<or> storage_key ns x \<in> set (key_names ls)"
    unfolding key_names_set [OF assms] by (rule insert_iff)
  also have "\<dots> \<longleftrightarrow> x = k \<or> x \<in> set (storage_keys ns ls)"
    unfolding storage_key_inj mem_storage_keys ..
  finally show "x \<in> set (storage_keys ns ls') \<longleftrightarrow> x \<in> insert k (set (storage_keys ns ls))"
    by (simp only: insert_iff)
qed

lemma keys_after_delete:
  "set (storage_keys ns (storage_delete ns k ls)) = set (storage_keys ns ls) - {k}"
proof (rule set_eqI)
  fix x
  have "x \<in> set (storage_keys ns (storage_delete ns k ls))
      \<longleftrightarrow> storage_key ns x \<in> set (key_names (storage_delete ns k ls))"
    by (rule mem_storage_keys)
  also have "\<dots> \<longleftrightarrow> storage_key ns x \<in> set (key_names ls) \<and> storage_key ns x \<noteq> storage_key ns k"
    unfolding key_names_delete by blast
  also have "\<dots> \<longleftrightarrow> x \<in> set (storage_keys ns ls) \<and> x \<noteq> k"
    unfolding storage_key_inj mem_storage_keys ..
  finally show "x \<in> set (storage_keys ns (storage_delete ns k ls))
      \<longleftrightarrow> x \<in> set (storage_keys ns ls) - {k}"
    by blast
qed

lemma live_Nil: "live [] = {}"
  by (simp add: live_def)

lemma live_snoc_Set: "live (cs @ [CallSet k v]) = insert k (live cs)"
proof (rule set_eqI)
  fix x
  show "x \<in> live (cs @ [CallSet k v]) \<longleftrightarrow> x \<in> insert k (live cs)"
  proof
    assume "x \<in> live (cs @ [CallSet k v])"
    then obtain i where i: "i < Suc (length cs)" "\<exists>w. (cs @ [CallSet k v]) ! i = CallSet x w"
        "\<forall>j. i < j \<and> j < Suc (length cs) \<longrightarrow> (cs @ [CallSet k v]) ! j \<noteq> CallDelete x"
      by (auto simp: live_def)
    show "x \<in> insert k (live cs)"
    proof (cases "i < length cs")
      case True
      have "\<forall>j. i < j \<and> j < length cs \<longrightarrow> cs ! j \<noteq> CallDelete x"
      proof (intro allI impI)
        fix j assume j: "i < j \<and> j < length cs"
        then have "(cs @ [CallSet k v]) ! j \<noteq> CallDelete x" using i(3) by simp
        then show "cs ! j \<noteq> CallDelete x" using j by (simp add: nth_append)
      qed
      then have "x \<in> live cs"
        using True i(2) by (auto simp: live_def nth_append)
      then show ?thesis by simp
    next
      case False
      then have "i = length cs" using i(1) by simp
      then show ?thesis using i(2) by simp
    qed
  next
    assume "x \<in> insert k (live cs)"
    then consider "x = k" | "x \<in> live cs" by auto
    then show "x \<in> live (cs @ [CallSet k v])"
    proof cases
      case 1
      have "length cs < length (cs @ [CallSet k v])" by simp
      moreover have "\<exists>w. (cs @ [CallSet k v]) ! length cs = CallSet x w" using 1 by simp
      moreover have "\<forall>j. length cs < j \<and> j < length (cs @ [CallSet k v])
          \<longrightarrow> (cs @ [CallSet k v]) ! j \<noteq> CallDelete x" by auto
      ultimately show ?thesis unfolding live_def by blast
    next
      case 2
      then obtain i where i: "i < length cs" "\<exists>w. cs ! i = CallSet x w"
          "\<forall>j. i < j \<and> j < length cs \<longrightarrow> cs ! j \<noteq> CallDelete x"
        by (auto simp: live_def)
      have "i < length (cs @ [CallSet k v])" using i(1) by simp
      moreover have "\<exists>w. (cs @ [CallSet k v]) ! i = CallSet x w" using i(1,2) by (simp add: nth_append)
      moreover have "\<forall>j. i < j \<and> j < length (cs @ [CallSet k v])
          \<longrightarrow> (cs @ [CallSet k v]) ! j \<noteq> CallDelete x"
        using i(3) by (auto simp: nth_append)
      ultimately show ?thesis unfolding live_def by blast
    qed
  qed
qed

lemma live_snoc_Delete: "live (cs @ [CallDelete k]) = live cs - {k}"
proof (rule set_eqI)
  fix x
  show "x \<in> live (cs @ [CallDelete k]) \<longleftrightarrow> x \<in> live cs - {k}"
  proof
    assume "x \<in> live (cs @ [CallDelete k])"
    then obtain i where i: "i < Suc (length cs)" "\<exists>w. (cs @ [CallDelete k]) ! i = CallSet x w"
        "\<forall>j. i < j \<and> j < Suc (length cs) \<longrightarrow> (cs @ [CallDelete k]) ! j \<noteq> CallDelete x"
      by (auto simp: live_def)
    have lt: "i < length cs"
    proof (rule ccontr)
      assume "\<not> i < length cs"
      then have "i = length cs" using i(1) by simp
      then show False using i(2) by simp
    qed
    have "i < length cs \<and> length cs < Suc (length cs)" using lt by simp
    then have "(cs @ [CallDelete k]) ! length cs \<noteq> CallDelete x" using i(3) by blast
    then have ne: "x \<noteq> k" by auto
    have "\<forall>j. i < j \<and> j < length cs \<longrightarrow> cs ! j \<noteq> CallDelete x"
    proof (intro allI impI)
      fix j assume j: "i < j \<and> j < length cs"
      then have "(cs @ [CallDelete k]) ! j \<noteq> CallDelete x" using i(3) by simp
      then show "cs ! j \<noteq> CallDelete x" using j by (simp add: nth_append)
    qed
    then have "x \<in> live cs"
      using lt i(2) by (auto simp: live_def nth_append)
    then show "x \<in> live cs - {k}" using ne by simp
  next
    assume "x \<in> live cs - {k}"
    then obtain i where i: "i < length cs" "\<exists>w. cs ! i = CallSet x w"
        "\<forall>j. i < j \<and> j < length cs \<longrightarrow> cs ! j \<noteq> CallDelete x" and ne: "x \<noteq> k"
      by (auto simp: live_def)
    have "i < length (cs @ [CallDelete k])" using i(1) by simp
    moreover have "\<exists>w. (cs @ [CallDelete k]) ! i = CallSet x w" using i(1,2) by (simp add: nth_append)
    moreover have "\<forall>j. i < j \<and> j < length (cs @ [CallDelete k])
        \<longrightarrow> (cs @ [CallDelete k]) ! j \<noteq> CallDelete x"
      using i(3) ne by (auto simp: nth_append)
    ultimately show "x \<in> live (cs @ [CallDelete k])" unfolding live_def by blast
  qed
qed

lemma calls_snoc:
  "calls ns (cs @ [c]) ls =
     (case calls ns cs ls of Inl e \<Rightarrow> Inl e | Inr ls' \<Rightarrow> calls ns [c] ls')"
proof (induction cs arbitrary: ls)
  case Nil
  then show ?case by (cases c) (simp_all split: sum.splits)
next
  case (Cons a cs)
  then show ?case by (cases a) (simp_all split: sum.splits)
qed

lemma keys_after_calls:
  "calls ns cs ls = Inr ls' \<Longrightarrow> set (storage_keys ns ls) = {}
   \<Longrightarrow> set (storage_keys ns ls') = live cs"
proof (induction cs arbitrary: ls' rule: rev_induct)
  case Nil
  then show ?case by (simp add: live_Nil)
next
  case (snoc c cs)
  from snoc.prems(1) obtain l1 where l1: "calls ns cs ls = Inr l1" "calls ns [c] l1 = Inr ls'"
    by (auto simp: calls_snoc split: sum.splits)
  have IH: "set (storage_keys ns l1) = live cs" using snoc.IH [OF l1(1) snoc.prems(2)] .
  show ?case
  proof (cases c)
    case (CallSet k v)
    then have "storage_set ns k v l1 = Inr ls'" using l1(2) by (simp split: sum.splits)
    from keys_after_set [OF this] show ?thesis using IH CallSet by (simp add: live_snoc_Set)
  next
    case (CallDelete k)
    then have "ls' = storage_delete ns k l1" using l1(2) by simp
    then show ?thesis using IH CallDelete by (simp add: keys_after_delete live_snoc_Delete)
  qed
qed

subsection \<open>Writing and reading an entry\<close>

lemma wf_toJSON: "wf_json (toJSON R)"
  by (simp add: toJSON_def list_all_iff)

lemma get_after_set:
  assumes "storage_set ns k v ls = Inr ls'" and "wf_json v"
  shows "storage_get ns k ls' = Inr (Some v)"
proof -
  have "items ls' = AList.update (storage_key ns k) (JSON_stringify v) (items ls)"
    using assms(1) by (auto simp: storage_set_def setItem_def Let_def split: if_splits)
  then have "getItem ls' (storage_key ns k) = Some (JSON_stringify v)"
    by (simp add: getItem_def update_conv')
  then show ?thesis
    by (simp add: storage_get_def JSON_parse_stringify [OF assms(2)])
qed

subsection \<open>What the handlers keep\<close>

text \<open>
  Take a checklist record whose \<^verbatim>\<open>done\<close> entries are all among its \<^verbatim>\<open>tasks\<close>, mount
  a Checklist on it in any mode, and let the user press `Add another task`, remove buttons
  and checkboxes in any finite sequence. No handler throws, and afterwards every string in
  the \<^verbatim>\<open>done\<close> of the component's record is an element of its \<^verbatim>\<open>tasks\<close>; so it is in
  every record the checkboxes wrote to storage. These handlers never touch \<^verbatim>\<open>tasks\<close>.
\<close>

lemma handlers_keep_done_within_tasks:
  assumes "set (done' R) \<subseteq> set (tasks R)"
  shows "\<exists>c out R'. run evs (componentDidMount (constructor (Some R) m)) = Inr (c, out)
           \<and> state_data c = Some R'
           \<and> set (done' R') \<subseteq> set (tasks R')
           \<and> (\<forall>k W. StorageSet k W \<in> set out \<longrightarrow> set (done' W) \<subseteq> set (tasks W))"
proof -
  from consistent_run [OF consistent_mount [OF assms], of evs m]
  obtain c out where r: "run evs (componentDidMount (constructor (Some R) m)) = Inr (c, out)"
      "consistent c" "list_all good_write out"
    by blast
  from r(2) obtain R' where R': "state_data c = Some R'" "set (done' R') \<subseteq> set (tasks R')"
    by (rule consistentE)
  have "\<forall>k W. StorageSet k W \<in> set out \<longrightarrow> set (done' W) \<subseteq> set (tasks W)"
    using r(3) by (force simp: list_all_iff)
  with r(1) R' show ?thesis by blast
qed

subsection \<open>What the checkboxes can rely on\<close>

text \<open>
  The records the application makes have tasks that are not empty (both save operations
  push only inputs with text) and a \<^verbatim>\<open>done\<close> without repeats (it starts empty and a
  task is pushed only when absent). Mounted on such a record, a checklist stays checkable
  under every event.
\<close>

lemma checkableI:
  "state_data c = Some R \<Longrightarrow> distinct (done' R) \<Longrightarrow> list_all armed (inputElements c)
   \<Longrightarrow> checkable c"
  by (simp add: checkable_def)

lemma checkableE:
  assumes "checkable c"
  obtains R where "state_data c = Some R" and "distinct (done' R)"
    and "list_all armed (inputElements c)"
  using assms by (auto simp: checkable_def split: option.splits)

lemma insert_loop_armed:
  "list_all armed acc \<Longrightarrow> [] \<notin> set ts \<Longrightarrow> list_all armed (snd (insert_loop c ts n acc))"
  by (induction ts arbitrary: n acc) (auto simp: armed_def)

lemma checkable_mount:
  assumes "distinct (done' R)" and "[] \<notin> set (tasks R)"
  shows "checkable (componentDidMount (constructor (Some R) m))"
proof -
  let ?c = "(constructor (Some R) m)\<lparr>state_has_data := True\<rparr>"
  have "list_all armed (snd (insert_loop ?c (tasks R) (createdInputs ?c) []))"
    using assms(2) by (intro insert_loop_armed) simp_all
  then show ?thesis
    using assms(1)
    by (simp add: checkable_def componentDidMount_def constructor_def insertInputs_def
        state_data_def split_beta)
qed

lemma checkable_createInput:
  assumes "checkable c"
  shows "checkable (createInput f c)"
proof -
  from assms obtain R where R: "state_data c = Some R" "distinct (done' R)"
      "list_all armed (inputElements c)"
    by (rule checkableE)
  show ?thesis
    using R by (intro checkableI [of _ R])
      (simp_all add: createInput_def Let_def state_data_def armed_def split: if_splits)
qed

lemma checkable_completeTask:
  assumes "checkable c" and "t \<noteq> []"
  shows "checkable (fst (completeTask t c))"
proof -
  from assms(1) obtain R where R: "state_data c = Some R" "distinct (done' R)"
      "list_all armed (inputElements c)"
    by (rule checkableE)
  define D where "D = (if t \<in> set (done' R) \<and> t \<noteq> [] then remove1 t (done' R) else done' R @ [t])"
  have eq: "fst (completeTask t c) = c\<lparr>the_data := Some (R\<lparr>done' := D\<rparr>)\<rparr>"
    by (simp add: completeTask_done [OF R(1)] Let_def D_def)
  have sd: "state_has_data c"
    using R(1) by (simp add: state_data_def split: if_splits)
  have "distinct D" using R(2) assms(2) by (auto simp: D_def)
  then show ?thesis
    unfolding eq using R(3) sd
    by (intro checkableI [of _ "R\<lparr>done' := D\<rparr>"]) (simp_all add: state_data_def)
qed

lemma checkable_removeInput:
  assumes "checkable c" and "removeInput i t c = Inr c'"
  shows "checkable c'"
proof (cases "length (inputElements c) > 1")
  case False
  then show ?thesis using assms by (simp add: removeInput_def)
next
  case True
  from assms(1) obtain R where R: "state_data c = Some R" "distinct (done' R)"
      "list_all armed (inputElements c)"
    by (rule checkableE)
  have ed: "mode c = ''edit''"
    using assms(2) True by (auto simp: removeInput_def Let_def split: if_splits)
  have sd: "state_has_data c"
    using R(1) by (simp add: state_data_def split: if_splits)
  have el: "list_all armed (filter (\<lambda>elem. props_id elem \<noteq> i) (inputElements c))"
    using R(3) by (simp add: list_all_iff)
  have c': "c' = c\<lparr>inputElements := filter (\<lambda>elem. props_id elem \<noteq> i) (inputElements c),
            createdInputs := (if createdInputs c - 1 < 1 then 1 else createdInputs c - 1),
            the_data := Some (R\<lparr>done' := remove1 t (done' R)\<rparr>)\<rparr>"
    using assms(2) by (simp add: removeInput_done [OF R(1) True ed])
  show ?thesis
    unfolding c' using R(2) sd el
    by (intro checkableI [of _ "R\<lparr>done' := remove1 t (done' R)\<rparr>"]) (simp_all add: state_data_def)
qed

lemma checkable_handle:
  assumes "checkable c" and "handle ev c = Inr (c', out)"
  shows "checkable c'"
proof (cases ev)
  case AddTask
  then show ?thesis
    using assms checkable_createInput [OF assms(1)] by (auto split: if_splits)
next
  case (RemoveTask n s)
  show ?thesis
  proof (cases "n < length (inputElements c) \<and> props_mode (inputElements c ! n) = ''edit''
         \<and> props_isRemovable (inputElements c ! n)")
    case False
    then show ?thesis using assms RemoveTask by auto
  next
    case True
    show ?thesis
    proof (cases "props_onRemove (inputElements c ! n)")
      case False
      then show ?thesis
        using assms RemoveTask True by (simp add: Input_removeInput_def)
    next
      case on: True
      have "removeInput (props_id (inputElements c ! n)) s c = Inr c'"
        using assms(2) RemoveTask True on
        by (simp add: Input_removeInput_def split: sum.splits)
      then show ?thesis by (rule checkable_removeInput [OF assms(1)])
    qed
  qed
next
  case (CompleteTask n)
  show ?thesis
  proof (cases "n < length (inputElements c) \<and> props_mode (inputElements c ! n) \<noteq> ''edit''")
    case False
    then show ?thesis using assms CompleteTask by auto
  next
    case True
    show ?thesis
    proof (cases "props_value (inputElements c ! n)")
      case None
      then show ?thesis
        using assms CompleteTask True by (simp add: Input_completeTask_def)
    next
      case (Some v)
      show ?thesis
      proof (cases "props_onComplete (inputElements c ! n) \<and> v \<noteq> []")
        case False
        then show ?thesis
          using assms CompleteTask True Some by (auto simp: Input_completeTask_def)
      next
        case go: True
        then have "c' = fst (completeTask v c)"
          using assms(2) CompleteTask True Some by (auto simp: Input_completeTask_def)
        then show ?thesis using checkable_completeTask [OF assms(1), of v] go by simp
      qed
    qed
  qed
qed

lemma checkable_run:
  "checkable c \<Longrightarrow> run evs c = Inr (c', out) \<Longrightarrow> checkable c'"
proof (induction evs arbitrary: c out)
  case Nil
  then show ?case by simp
next
  case (Cons ev evs)
  from Cons.prems(2) obtain c1 out1 out2 where
    h: "handle ev c = Inr (c1, out1)" and r: "run evs c1 = Inr (c', out2)"
    by (auto split: sum.splits prod.splits)
  from checkable_handle [OF Cons.prems(1) h] have "checkable c1" .
  from Cons.IH [OF this r] show ?case .
qed

subsection \<open>Removing the input of a task, then saving\<close>

text \<open>
  On the record with tasks A, B and done A, pressing the remove button of A's input and
  saving writes tasks B and an empty \<^verbatim>\<open>done\<close>.
\<close>

lemma remove_A_then_save:
  "(case run [RemoveTask 0 ''A'']
          (componentDidMount (constructor
             (Some \<lparr>complete = False, done' = [''A''], id' = 1, tasks = [''A'', ''B''],
                    time = 1000, title = ''Letters''\<rparr>) ''edit'')) of
      Inl e \<Rightarrow> []
    | Inr (c, out) \<Rightarrow>
        (case the_data c of
           None \<Rightarrow> []
         | Some d \<Rightarrow> filter is_write (saveChanges (Some c) (input_values c) d)))
     = [StorageSet (toString 1) \<lparr>complete = False, done' = [], id' = 1, tasks = [''B''],
                                   time = 1000, title = ''Letters''\<rparr>]"
  by code_simp

section \<open>Properties of the specification\<close>

text \<open>
  C1. For every checklist record R and every prior state of the store: when
  \<^verbatim>\<open>set(R.id.toString(), R)\<close> resolves, a following \<^verbatim>\<open>get\<close> of the same key resolves
  with a value equal to R, property by property (the parsed text is R's own object).
\<close>

theorem set_then_get:
  assumes "storage_set ns (toString (id' R)) (toJSON R) ls = Inr ls'"
  shows "storage_get ns (toString (id' R)) ls' = Inr (Some (toJSON R))"
  using assms wf_toJSON by (rule get_after_set)

theorem set_then_get_witness:
  "storage_set ''checklist'' (toString 1)
      (toJSON \<lparr>complete = False, done' = [], id' = 1, tasks = [''Milk'', ''Eggs''],
               time = 1000, title = ''Groceries''\<rparr>)
      \<lparr>items = [(''theme'', ''dark'')], quota = 5000\<rparr>
     = Inr \<lparr>items = [(''theme'', ''dark''),
                      (''checklist-1'', JSON_stringify
                        (toJSON \<lparr>complete = False, done' = [], id' = 1,
                                 tasks = [''Milk'', ''Eggs''], time = 1000,
                                 title = ''Groceries''\<rparr>))],
             quota = 5000\<rparr>
   \<and> storage_get ''checklist'' (toString 1)
        \<lparr>items = [(''theme'', ''dark''),
                  (''checklist-1'', JSON_stringify
                    (toJSON \<lparr>complete = False, done' = [], id' = 1,
                             tasks = [''Milk'', ''Eggs''], time = 1000,
                             title = ''Groceries''\<rparr>))],
         quota = 5000\<rparr>
     = Inr (Some (toJSON \<lparr>complete = False, done' = [], id' = 1,
                          tasks = [''Milk'', ''Eggs''], time = 1000,
                          title = ''Groceries''\<rparr>))
   \<and> toString 1 = ''1''"
proof -
  let ?R = "\<lparr>complete = False, done' = [], id' = 1, tasks = [''Milk'', ''Eggs''],
             time = 1000, title = ''Groceries''\<rparr>"
  let ?ls = "\<lparr>items = [(''theme'', ''dark'')], quota = 5000\<rparr>"
  let ?ls' = "\<lparr>items = [(''theme'', ''dark''), (''checklist-1'', JSON_stringify (toJSON ?R))],
              quota = 5000\<rparr>"
  have h: "storage_set ''checklist'' (toString (id' ?R)) (toJSON ?R) ?ls = Inr ?ls'"
    by code_simp
  have k: "toString 1 = ''1''"
    by code_simp
  from set_then_get [OF h] h k show ?thesis by simp
qed

text \<open>
  C7. For every key and every prior state of the store, \<^verbatim>\<open>delete(k)\<close> followed by
  \<^verbatim>\<open>get(k)\<close> resolves with no value, and not with an error, whether or not the key had
  an entry.
\<close>

theorem delete_then_get: "storage_get ns k (storage_delete ns k ls) = Inr None"
  by (simp add: storage_get_def storage_delete_def removeItem_def getItem_def delete_conv')

text \<open>
  C6. Start from a store that holds no entry of the namespace and run any finite chain of
  \<^verbatim>\<open>set\<close> and \<^verbatim>\<open>delete\<close> calls that resolves. Then \<^verbatim>\<open>keys()\<close> lists, prefix
  stripped, exactly the keys that some call of the chain set and no later call deleted;
  as a set, the answer depends on nothing else.
\<close>

theorem keys_after_history:
  assumes "set (storage_keys ns ls) = {}" and "calls ns cs ls = Inr ls'"
  shows "set (storage_keys ns ls') =
           {k. \<exists>i < length cs. (\<exists>v. cs ! i = CallSet k v)
                 \<and> (\<forall>j. i < j \<and> j < length cs \<longrightarrow> cs ! j \<noteq> CallDelete k)}"
  using keys_after_calls [OF assms(2,1)] by (simp add: live_def)

theorem keys_after_history_witness:
  "set (storage_keys ''checklist'' \<lparr>items = [(''theme'', ''dark'')], quota = 5000\<rparr>) = {}
   \<and> calls ''checklist''
        [CallSet ''1'' (JString ''first''), CallSet ''2'' (JString ''second''), CallDelete ''1'']
        \<lparr>items = [(''theme'', ''dark'')], quota = 5000\<rparr>
     = Inr \<lparr>items = [(''theme'', ''dark''), (''checklist-2'', JSON_stringify (JString ''second''))],
             quota = 5000\<rparr>
   \<and> storage_keys ''checklist''
        \<lparr>items = [(''theme'', ''dark''), (''checklist-2'', JSON_stringify (JString ''second''))],
         quota = 5000\<rparr> = [''2'']
   \<and> set (storage_keys ''checklist''
        \<lparr>items = [(''theme'', ''dark''), (''checklist-2'', JSON_stringify (JString ''second''))],
         quota = 5000\<rparr>)
     = {k. \<exists>i < length [CallSet ''1'' (JString ''first''), CallSet ''2'' (JString ''second''),
                          CallDelete ''1''].
            (\<exists>v. [CallSet ''1'' (JString ''first''), CallSet ''2'' (JString ''second''),
                   CallDelete ''1''] ! i = CallSet k v)
            \<and> (\<forall>j. i < j \<and> j < length [CallSet ''1'' (JString ''first''),
                       CallSet ''2'' (JString ''second''), CallDelete ''1'']
                 \<longrightarrow> [CallSet ''1'' (JString ''first''), CallSet ''2'' (JString ''second''),
                      CallDelete ''1''] ! j \<noteq> CallDelete k)}"
proof -
  let ?ls = "\<lparr>items = [(''theme'', ''dark'')], quota = 5000\<rparr>"
  let ?ls' = "\<lparr>items = [(''theme'', ''dark''),
                        (''checklist-2'', JSON_stringify (JString ''second''))], quota = 5000\<rparr>"
  let ?cs = "[CallSet ''1'' (JString ''first''), CallSet ''2'' (JString ''second''), CallDelete ''1'']"
  have "storage_keys ''checklist'' ?ls = []"
    by code_simp
  then have h1: "set (storage_keys ''checklist'' ?ls) = {}"
    by simp
  have h2: "calls ''checklist'' ?cs ?ls = Inr ?ls'"
    by code_simp
  have h3: "storage_keys ''checklist'' ?ls' = [''2'']"
    by code_simp
  from keys_after_history [OF h1 h2] h1 h2 h3 show ?thesis by blast
qed

text \<open>
  C3. For every checklist record, setting it as complete performs exactly one storage
  write, under the record's id; the written record has \<^verbatim>\<open>done\<close> equal to \<^verbatim>\<open>tasks\<close>
  and \<^verbatim>\<open>complete\<close> true, and its id, title, time and tasks are those of the input.
\<close>

theorem setAsComplete_single_write:
  "\<exists>W. filter is_write (setAsComplete R) = [StorageSet (toString (id' R)) W]
     \<and> done' W = tasks R \<and> complete W = True
     \<and> id' W = id' R \<and> title W = title R \<and> time W = time R \<and> tasks W = tasks R"
  by (simp add: setAsComplete_def Let_def)

text \<open>
  C2. After a sequence of add-task and remove-task operations the record that the Edit
  slide saves need not have its \<^verbatim>\<open>done\<close> within its \<^verbatim>\<open>tasks\<close>. The slide takes the
  tasks from the inputs left on the page. \<^verbatim>\<open>removeInput\<close> lowers the counter that
  names the inputs, so an input added after a removal can carry the id of an input that
  is still there; removing it filters out both and prunes only its own text from
  \<^verbatim>\<open>done\<close>. On the record with tasks A, B, C and done C: remove the input of B, add a
  task, remove the new empty input, save. The record written has tasks A and done C.
\<close>

theorem reused_id_breaks_done_subset:
  "set (done' \<lparr>complete = False, done' = [''C''], id' = 1, tasks = [''A'', ''B'', ''C''],
               time = 1000, title = ''Letters''\<rparr>)
     \<subseteq> set (tasks \<lparr>complete = False, done' = [''C''], id' = 1, tasks = [''A'', ''B'', ''C''],
               time = 1000, title = ''Letters''\<rparr>)
   \<and> (case run [RemoveTask 1 ''B'', AddTask, RemoveTask 2 []]
          (componentDidMount (constructor
             (Some \<lparr>complete = False, done' = [''C''], id' = 1, tasks = [''A'', ''B'', ''C''],
                    time = 1000, title = ''Letters''\<rparr>) ''edit'')) of
         Inl e \<Rightarrow> []
       | Inr (c, out) \<Rightarrow>
           (case the_data c of
              None \<Rightarrow> []
            | Some d \<Rightarrow> filter is_write (saveChanges (Some c) (input_values c) d)))
     = [StorageSet (toString 1) \<lparr>complete = False, done' = [''C''], id' = 1, tasks = [''A''],
                                   time = 1000, title = ''Letters''\<rparr>]
   \<and> \<not> set (done' \<lparr>complete = False, done' = [''C''], id' = 1, tasks = [''A''],
                    time = 1000, title = ''Letters''\<rparr>)
         \<subseteq> set (tasks \<lparr>complete = False, done' = [''C''], id' = 1, tasks = [''A''],
                    time = 1000, title = ''Letters''\<rparr>)"
proof -
  have "(case run [RemoveTask 1 ''B'', AddTask, RemoveTask 2 []]
          (componentDidMount (constructor
             (Some \<lparr>complete = False, done' = [''C''], id' = 1, tasks = [''A'', ''B'', ''C''],
                    time = 1000, title = ''Letters''\<rparr>) ''edit'')) of
         Inl e \<Rightarrow> []
       | Inr (c, out) \<Rightarrow>
           (case the_data c of
              None \<Rightarrow> []
            | Some d \<Rightarrow> filter is_write (saveChanges (Some c) (input_values c) d)))
     = [StorageSet (toString 1) \<lparr>complete = False, done' = [''C''], id' = 1, tasks = [''A''],
                                   time = 1000, title = ''Letters''\<rparr>]"
    by code_simp
  then show ?thesis by simp
qed

text \<open>
  C9, as amended. With \<^verbatim>\<open>Math.random()\<close> in [0, 1) the seed is an index of the array,
  and for a non-negative timestamp the generated id is the chosen 32-bit value plus the
  timestamp: a non-negative integer, positive unless both the chosen value and the
  timestamp are zero.
\<close>

theorem generateUUID_nonneg:
  assumes "0 \<le> r" and "r < 1" and "0 \<le> now"
  shows "nat (seed_of r) < length (getRandomValues draws 8)
     \<and> generateUUID draws r now = int (unat (draws (nat (seed_of r)))) + now
     \<and> 0 \<le> generateUUID draws r now
     \<and> (0 < generateUUID draws r now \<longleftrightarrow> draws (nat (seed_of r)) \<noteq> 0 \<or> now \<noteq> 0)"
proof -
  from seed_of_range [OF assms(1,2)] have s: "nat (seed_of r) < 8" by linarith
  have len: "length (getRandomValues draws 8) = 8" by (simp add: getRandomValues_def)
  have g: "generateUUID draws r now = int (unat (draws (nat (seed_of r)))) + now"
    using assms(3) by (simp add: generateUUID_def Let_def getRandomValues_nth [OF s])
  define u where "u = int (unat (draws (nat (seed_of r))))"
  have u0: "0 \<le> u" by (simp add: u_def)
  have uz: "u = 0 \<longleftrightarrow> draws (nat (seed_of r)) = 0"
    by (simp add: u_def uint_0_iff)
  have "0 \<le> u + now \<and> (0 < u + now \<longleftrightarrow> draws (nat (seed_of r)) \<noteq> 0 \<or> now \<noteq> 0)"
    using u0 uz assms(3) by linarith
  then show ?thesis
    using s len g unfolding u_def by simp
qed

theorem generateUUID_nonneg_witness:
  "(0::real) \<le> 1 / 2 \<and> (1 / 2 :: real) < 1 \<and> (0::int) \<le> 1000
   \<and> generateUUID of_nat (1 / 2) 1000 = 1003 \<and> 0 < generateUUID of_nat (1 / 2) 1000"
  using generateUUID_nonneg [of "1 / 2" 1000 of_nat]
  by (simp add: seed_of_def Let_def)

text \<open>
  C9 as stated fails: when the random values are zero and the clock reads 0, the id is 0,
  which is not positive.
\<close>

theorem generateUUID_positive_counterexample: "generateUUID of_nat 0 0 = 0 \<and> \<not> 0 < generateUUID of_nat 0 0"
  by (simp add: generateUUID_def seed_of_def getRandomValues_def Let_def)

text \<open>
  C4. Take a record the application can hold (no string twice in \<^verbatim>\<open>done\<close>, no empty
  task), mount a Checklist on it and let any events happen. Ticking the checkbox of a task
  \<open>t\<close> then toggles the membership of \<open>t\<close> in \<^verbatim>\<open>done\<close>: when \<open>t\<close> is present it is
  removed, when it is absent it is appended; no other field of the record changes, and
  the record is written to storage under its id.
\<close>

theorem completeTask_toggles:
  assumes "distinct (done' R)" and "[] \<notin> set (tasks R)"
    and "run evs (componentDidMount (constructor (Some R) m)) = Inr (c, out)"
    and "n < length (inputElements c)"
    and "props_mode (inputElements c ! n) \<noteq> ''edit''"
    and "props_value (inputElements c ! n) = Some t"
  shows "\<exists>R1 W. state_data c = Some R1
      \<and> handle (CompleteTask n) c
          = Inr (c\<lparr>the_data := Some W\<rparr>, [StorageSet (toString (id' R1)) W])
      \<and> done' W = (if t \<in> set (done' R1) then remove1 t (done' R1) else done' R1 @ [t])
      \<and> (t \<in> set (done' W) \<longleftrightarrow> t \<notin> set (done' R1))
      \<and> complete W = complete R1 \<and> id' W = id' R1 \<and> tasks W = tasks R1
      \<and> time W = time R1 \<and> title W = title R1"
proof -
  have "checkable c"
    using checkable_run [OF checkable_mount [OF assms(1,2)] assms(3)] .
  then obtain R1 where R1: "state_data c = Some R1" "distinct (done' R1)"
      "list_all armed (inputElements c)"
    by (rule checkableE)
  have "inputElements c ! n \<in> set (inputElements c)" using assms(4) by simp
  then have "armed (inputElements c ! n)" using R1(3) by (simp add: list_all_iff)
  then have t: "t \<noteq> []" "props_onComplete (inputElements c ! n)"
    using assms(6) by (simp_all add: armed_def)
  define D where "D = (if t \<in> set (done' R1) then remove1 t (done' R1) else done' R1 @ [t])"
  have h: "handle (CompleteTask n) c
      = Inr (c\<lparr>the_data := Some (R1\<lparr>done' := D\<rparr>)\<rparr>,
             [StorageSet (toString (id' R1)) (R1\<lparr>done' := D\<rparr>)])"
    using assms(4,5,6) t
    by (simp add: Input_completeTask_def completeTask_done [OF R1(1)] Let_def D_def)
  have m: "t \<in> set D \<longleftrightarrow> t \<notin> set (done' R1)"
    using R1(2) by (simp add: D_def)
  show ?thesis
    using R1(1) h m by (intro exI [of _ R1] exI [of _ "R1\<lparr>done' := D\<rparr>"]) (simp add: D_def)
qed

theorem completeTask_toggles_witness:
  "distinct (done' \<lparr>complete = False, done' = [''Milk''], id' = 1, tasks = [''Milk'', ''Eggs''],
                    time = 1000, title = ''Groceries''\<rparr>)
   \<and> [] \<notin> set (tasks \<lparr>complete = False, done' = [''Milk''], id' = 1,
                         tasks = [''Milk'', ''Eggs''], time = 1000, title = ''Groceries''\<rparr>)
   \<and> (\<exists>c out.
        run [CompleteTask 1]
          (componentDidMount (constructor
             (Some \<lparr>complete = False, done' = [''Milk''], id' = 1, tasks = [''Milk'', ''Eggs''],
                    time = 1000, title = ''Groceries''\<rparr>) ''view'')) = Inr (c, out)
        \<and> 0 < length (inputElements c)
        \<and> props_mode (inputElements c ! 0) \<noteq> ''edit''
        \<and> props_value (inputElements c ! 0) = Some ''Milk''
        \<and> (\<exists>W. handle (CompleteTask 0) c
                  = Inr (c\<lparr>the_data := Some W\<rparr>, [StorageSet (toString 1) W])
               \<and> W = \<lparr>complete = False, done' = [''Eggs''], id' = 1,
                      tasks = [''Milk'', ''Eggs''], time = 1000, title = ''Groceries''\<rparr>))"
proof -
  let ?R = "\<lparr>complete = False, done' = [''Milk''], id' = 1, tasks = [''Milk'', ''Eggs''],
             time = 1000, title = ''Groceries''\<rparr>"
  let ?c0 = "componentDidMount (constructor (Some ?R) ''view'')"
  have h1: "distinct (done' ?R)" by simp
  have h2: "[] \<notin> set (tasks ?R)" by simp
  have "case run [CompleteTask 1] ?c0 of
          Inl e \<Rightarrow> False
        | Inr (c, out) \<Rightarrow>
            0 < length (inputElements c)
            \<and> props_mode (inputElements c ! 0) \<noteq> ''edit''
            \<and> props_value (inputElements c ! 0) = Some ''Milk''
            \<and> state_data c = Some (?R\<lparr>done' := [''Milk'', ''Eggs'']\<rparr>)"
    by code_simp
  then obtain c out where r: "run [CompleteTask 1] ?c0 = Inr (c, out)"
      and h4: "0 < length (inputElements c)"
      and h5: "props_mode (inputElements c ! 0) \<noteq> ''edit''"
      and h6: "props_value (inputElements c ! 0) = Some ''Milk''"
      and sd: "state_data c = Some (?R\<lparr>done' := [''Milk'', ''Eggs'']\<rparr>)"
    by (auto split: sum.splits prod.splits)
  from completeTask_toggles [OF h1 h2 r h4 h5 h6] sd
  have "\<exists>W. handle (CompleteTask 0) c
                  = Inr (c\<lparr>the_data := Some W\<rparr>, [StorageSet (toString 1) W])
               \<and> W = \<lparr>complete = False, done' = [''Eggs''], id' = 1,
                      tasks = [''Milk'', ''Eggs''], time = 1000, title = ''Groceries''\<rparr>"
    by auto
  with h1 h2 r h4 h5 h6 show ?thesis by blast
qed

text \<open>
  C5. Removing an input does not always prune the task that leaves the page. After the
  input of B is removed and a task is added, the new input carries id 3, the id of C's
  input (\<^verbatim>\<open>removeInput\<close> lowered the counter). Pressing the remove button of the new
  input filters out both inputs with id 3 and prunes only the new input's own text, the
  empty string: C's input is gone and C is still in \<^verbatim>\<open>done\<close>. (The scenario of the
  claim, removing A from tasks A, B with done A, does come out as the claim says.)
\<close>

theorem reused_id_drops_unpruned_task:
  "(case run [RemoveTask 1 ''B'', AddTask]
          (componentDidMount (constructor
             (Some \<lparr>complete = False, done' = [''C''], id' = 1, tasks = [''A'', ''B'', ''C''],
                    time = 1000, title = ''Letters''\<rparr>) ''edit'')) of
      Inl e \<Rightarrow> None
    | Inr (c, out) \<Rightarrow>
        Some (map props_id (inputElements c), map props_value (inputElements c),
              map_option done' (state_data c)))
     = Some ([1, 3, 3], [Some ''A'', Some ''C'', None], Some [''C''])
   \<and> (case run [RemoveTask 1 ''B'', AddTask, RemoveTask 2 []]
          (componentDidMount (constructor
             (Some \<lparr>complete = False, done' = [''C''], id' = 1, tasks = [''A'', ''B'', ''C''],
                    time = 1000, title = ''Letters''\<rparr>) ''edit'')) of
      Inl e \<Rightarrow> None
    | Inr (c, out) \<Rightarrow>
        Some (map props_id (inputElements c), map props_value (inputElements c),
              map_option done' (state_data c)))
     = Some ([1], [Some ''A''], Some [''C''])"
  by code_simp

text \<open>
  C8. When the Edit slide has a checklist with a title and at least one input that is
  not empty, saving writes once, under the record's id, a record whose title is the
  form's title and whose tasks are the inputs that are not empty, in order; its id, time,
  done and complete are those of the input record. Otherwise nothing happens.
\<close>

theorem saveChanges_frame:
  "if (\<exists>c. ck = Some c \<and> checklist_title c \<noteq> []) \<and> filter (\<lambda>v. v \<noteq> []) inputs \<noteq> []
   then \<exists>c W. ck = Some c
          \<and> filter is_write (saveChanges ck inputs R) = [StorageSet (toString (id' R)) W]
          \<and> title W = checklist_title c \<and> tasks W = filter (\<lambda>v. v \<noteq> []) inputs
          \<and> id' W = id' R \<and> time W = time R \<and> done' W = done' R \<and> complete W = complete R
   else saveChanges ck inputs R = []"
  by (cases ck) (auto simp: saveChanges_def push_values_filter Let_def)

theorem saveChanges_frame_witness:
  "\<exists>W. filter is_write
          (saveChanges
             (Some (componentDidMount (constructor
                (Some \<lparr>complete = False, done' = [''Milk''], id' = 1,
                       tasks = [''Milk'', ''Eggs''], time = 1000, title = ''Groceries''\<rparr>)
                ''edit'')))
             [''Milk'', [], ''Bread'']
             \<lparr>complete = False, done' = [''Milk''], id' = 1, tasks = [''Milk'', ''Eggs''],
              time = 1000, title = ''Groceries''\<rparr>)
        = [StorageSet (toString 1) W]
      \<and> title W = ''Groceries'' \<and> tasks W = [''Milk'', ''Bread'']
      \<and> id' W = 1 \<and> time W = 1000 \<and> done' W = [''Milk''] \<and> complete W = False"
  using saveChanges_frame [of "Some (componentDidMount (constructor
                (Some \<lparr>complete = False, done' = [''Milk''], id' = 1,
                       tasks = [''Milk'', ''Eggs''], time = 1000, title = ''Groceries''\<rparr>)
                ''edit''))" "[''Milk'', [], ''Bread'']"
             "\<lparr>complete = False, done' = [''Milk''], id' = 1, tasks = [''Milk'', ''Eggs''],
              time = 1000, title = ''Groceries''\<rparr>"]
  by (simp add: componentDidMount_def constructor_def insertInputs_def split_beta)

text \<open>
  C10. When the Add slide has a checklist with a title and at least one input that is
  not empty, saving writes one record, with \<^verbatim>\<open>done\<close> empty, \<^verbatim>\<open>complete\<close> false, a title
  that is not empty and a list of tasks that is not empty and holds no empty string.
  Otherwise (no checklist behind the ref, an empty title, or no input with text) it
  performs no storage write and no callback.
\<close>

theorem saveChecklist_writes:
  "if (\<exists>c. ck = Some c \<and> checklist_title c \<noteq> []) \<and> filter (\<lambda>v. v \<noteq> []) inputs \<noteq> []
   then \<exists>k W. filter is_write (saveChecklist ck inputs draws r now1 now2) = [StorageSet k W]
          \<and> done' W = [] \<and> complete W = False \<and> title W \<noteq> []
          \<and> tasks W \<noteq> [] \<and> list_all (\<lambda>v. v \<noteq> []) (tasks W)
   else saveChecklist ck inputs draws r now1 now2 = []"
  by (cases ck) (auto simp: saveChecklist_def push_values_filter Let_def list_all_iff)

theorem saveChecklist_writes_witness:
  "\<exists>k W. filter is_write
          (saveChecklist
             (Some ((componentDidMount (constructor None ''edit''))
                      \<lparr>checklist_title := ''Groceries''\<rparr>))
             [''Milk'', [], ''Bread''] of_nat (1 / 2) 1000 1001)
        = [StorageSet k W]
      \<and> done' W = [] \<and> complete W = False \<and> title W \<noteq> []
      \<and> tasks W \<noteq> [] \<and> list_all (\<lambda>v. v \<noteq> []) (tasks W)"
  using saveChecklist_writes [of "Some ((componentDidMount (constructor None ''edit''))
                      \<lparr>checklist_title := ''Groceries''\<rparr>)" "[''Milk'', [], ''Bread'']"
            of_nat "1 / 2" 1000 1001]
  by simp

end
